theory Spec2Isabelle
  imports Complex_Main "HOL-Library.Sublist"
begin

section \<open>Data model\<close>

text \<open>
  Times are JavaScript numbers (doubles) in the source. A finite time is modelled by the
  real number it stands for. The marker loop tests \<open>m > lastTime + 0.1\<close> on doubles, and
  the rounding of that sum decides the test for boundaries about 0.1 s apart
  (\<open>1.0 + 0.1\<close> is the double \<open>1.1\<close>, \<open>0.2 + 0.1\<close> is \<open>0.30000000000000004\<close>); the sum is
  therefore a parameter \<open>plus_eps\<close> of the model: \<open>plus_eps lastTime\<close> is the double that
  the expression \<open>lastTime + 0.1\<close> evaluates to. The arithmetic of the fixed-interval
  loop is taken exactly, as it is on doubles for the whole-second clip lengths that the
  page offers (15, 30, 60 and 90 s) and durations below 2^53 s.
\<close>

record interval =
  iv_start :: real
  iv_end :: real

text \<open>
  The \<open>duration\<close> of the component is \<open>videoRef.current.duration\<close>, stored by
  \<open>onLoadedMetadata\<close> as it is: a finite number of seconds, or \<open>+Infinity\<close> for media
  without a known end. (The element reports NaN only as long as the metadata is not
  known; NaN is left out.)
\<close>

datatype media_duration = Seconds real | Unbounded

text \<open>\<open>trimSettings.autoFit\<close> is set from a select with the two options below.\<close>

datatype autofit = Merge | Discard

text \<open>\<open>trimSettings.mode\<close>: \<open>'copy'\<close> or \<open>'encode'\<close>.\<close>

datatype proc_mode = Copy | Encode

text \<open>
  \<open>trimSettings\<close>. \<open>clipDuration\<close> is \<open>parseFloat(trimSettings.duration)\<close> and
  \<open>remainderThreshold\<close> is \<open>parseFloat(trimSettings.remainderThreshold)\<close>; a text that
  does not parse (NaN) is not modelled.
\<close>

record trim_settings =
  clipDuration :: real
  autoFit :: autofit
  remainderThreshold :: real
  mode :: proc_mode
  template :: string

section \<open>Interval planning\<close>

text \<open>
  The marker branch of \<open>processVideo\<close>: the loop over \<open>sortedMarkers\<close>. The variable
  \<open>lastTime\<close> is assigned on every iteration, whether or not an interval was pushed. The
  test of the loop compares \<open>m\<close> with the sum as the code computes it.
\<close>

fun marker_loop :: "(real \<Rightarrow> real) \<Rightarrow> real \<Rightarrow> real list \<Rightarrow> interval list \<Rightarrow> interval list" where
  "marker_loop plus_eps lastTime [] intervals = intervals"
| "marker_loop plus_eps lastTime (m # ms) intervals =
     marker_loop plus_eps m ms
       (if m > plus_eps lastTime
        then intervals @ [\<lparr>iv_start = lastTime, iv_end = m\<rparr>]
        else intervals)"

text \<open>
  The fixed-duration branch: the \<open>while (current < duration)\<close> loop. It need not
  terminate, so it is a partial function and \<open>None\<close> stands for a loop that runs forever.

  For a finite duration the body is the one of the source. For \<open>+Infinity\<close> the body
  comes to this: \<open>current < Infinity\<close> holds; \<open>Math.min(current + clipDur, Infinity)\<close> is
  \<open>current + clipDur\<close>; \<open>remainder\<close> is \<open>Infinity\<close>, so \<open>remainder < threshold\<close> fails and
  neither the merge nor the discard branch is taken; the interval is pushed, \<open>current\<close>
  becomes \<open>end\<close>, and \<open>current >= duration\<close> fails, so the loop goes round again.
\<close>

partial_function (option) fixed_loop ::
  "media_duration \<Rightarrow> trim_settings \<Rightarrow> real \<Rightarrow> interval list \<Rightarrow> interval list option" where
  "fixed_loop duration ts current intervals =
    (case duration of
       Seconds d \<Rightarrow>
        (if current < d then
           (let end0 = min (current + clipDuration ts) d;
                remainder = d - end0
            in if remainder > 0 \<and> remainder < remainderThreshold ts \<and> autoFit ts = Discard
               then Some (intervals @ [\<lparr>iv_start = current, iv_end = end0\<rparr>])
               else
                 (let end1 = (if remainder > 0 \<and> remainder < remainderThreshold ts
                                 \<and> autoFit ts = Merge
                              then d else end0);
                      intervals1 = intervals @ [\<lparr>iv_start = current, iv_end = end1\<rparr>]
                  in if end1 \<ge> d then Some intervals1
                     else fixed_loop duration ts end1 intervals1))
         else Some intervals)
     | Unbounded \<Rightarrow>
        (let end0 = current + clipDuration ts;
             intervals1 = intervals @ [\<lparr>iv_start = current, iv_end = end0\<rparr>]
         in fixed_loop duration ts end0 intervals1))"

declare fixed_loop.simps [code]

text \<open>
  The planning part of \<open>processVideo\<close>, for a finite duration. (With \<open>+Infinity\<close> the
  fixed-interval branch is \<open>fixed_loop Unbounded\<close>; the marker branch would push an
  interval that ends at \<open>Infinity\<close>, which the type \<open>interval\<close> leaves out.)
\<close>

definition planIntervals ::
  "(real \<Rightarrow> real) \<Rightarrow> real list \<Rightarrow> real \<Rightarrow> trim_settings \<Rightarrow> interval list option" where
  "planIntervals plus_eps markers duration ts =
     (if length markers > 0
      then Some (marker_loop plus_eps 0 (sort (markers @ [duration])) [])
      else fixed_loop (Seconds duration) ts 0 [])"

text \<open>
  The sum \<open>lastTime + 0.1\<close> without rounding. It stands for the rounded sum in the
  examples below, whose boundaries are far enough from 0.1 s apart for both sums to
  decide every test of the loop the same way.
\<close>

definition eps_sum :: "real \<Rightarrow> real" where
  "eps_sum lastTime = lastTime + 1 / 10"

text \<open>One iteration of the loop body, named for the proofs: the end of the interval that the
  iteration pushes, and whether the loop leaves after it.\<close>

definition next_end :: "real \<Rightarrow> trim_settings \<Rightarrow> real \<Rightarrow> real" where
  "next_end duration ts current =
     (let end0 = min (current + clipDuration ts) duration;
          remainder = duration - end0
      in if remainder > 0 \<and> remainder < remainderThreshold ts \<and> autoFit ts = Merge
         then duration else end0)"

definition discards_here :: "real \<Rightarrow> trim_settings \<Rightarrow> real \<Rightarrow> bool" where
  "discards_here duration ts current =
     (let end0 = min (current + clipDuration ts) duration;
          remainder = duration - end0
      in remainder > 0 \<and> remainder < remainderThreshold ts \<and> autoFit ts = Discard)"

definition stops_here :: "real \<Rightarrow> trim_settings \<Rightarrow> real \<Rightarrow> bool" where
  "stops_here duration ts current =
     (discards_here duration ts current \<or> next_end duration ts current \<ge> duration)"

text \<open>The runs of the loop for a finite duration \<open>d\<close>, as a relation:
  \<open>fixed_run d ts cur ivs\<close> holds when the loop, entered with \<open>current = cur\<close>, pushes
  exactly \<open>ivs\<close> and leaves.\<close>

inductive fixed_run :: "real \<Rightarrow> trim_settings \<Rightarrow> real \<Rightarrow> interval list \<Rightarrow> bool"
  for d :: real and ts :: trim_settings where
  run_done: "d \<le> cur \<Longrightarrow> fixed_run d ts cur []"
| run_stop: "cur < d \<Longrightarrow> stops_here d ts cur \<Longrightarrow>
     fixed_run d ts cur [\<lparr>iv_start = cur, iv_end = next_end d ts cur\<rparr>]"
| run_step: "cur < d \<Longrightarrow> \<not> stops_here d ts cur \<Longrightarrow>
     fixed_run d ts (next_end d ts cur) ivs \<Longrightarrow>
     fixed_run d ts cur (\<lparr>iv_start = cur, iv_end = next_end d ts cur\<rparr> # ivs)"

section \<open>Properties of an interval sequence\<close>

text \<open>Each interval's end is the next interval's start.\<close>

fun gap_free :: "interval list \<Rightarrow> bool" where
  "gap_free (a # b # rest) = (iv_end a = iv_start b \<and> gap_free (b # rest))"
| "gap_free _ = True"

text \<open>The sequence invariant of the specification: the first interval starts at 0, the
  sequence is gap-free, and the last interval ends at the duration.\<close>

definition seq_invariant :: "real \<Rightarrow> interval list \<Rightarrow> bool" where
  "seq_invariant duration ivs =
     (ivs \<noteq> [] \<and> iv_start (hd ivs) = 0 \<and> gap_free ivs \<and> iv_end (last ivs) = duration)"

text \<open>Any two consecutive boundaries are equal or pass the test of the marker loop: the
  later one is above the sum \<open>plus_eps\<close> of the earlier one.\<close>

fun well_spaced :: "(real \<Rightarrow> real) \<Rightarrow> real list \<Rightarrow> bool" where
  "well_spaced plus_eps (a # b # rest) =
     ((b = a \<or> plus_eps a < b) \<and> well_spaced plus_eps (b # rest))"
| "well_spaced plus_eps _ = True"

text \<open>
  The epsilon-collapsing of the specification, in its words: walk the sorted boundaries
  from a cursor; a boundary more than 0.1 s after the cursor (by the same test as the
  loop's) is kept and becomes the cursor, any other boundary is skipped.
  \<open>collapsed_markers\<close> are the sorted unique markers after this collapsing, the cursor
  starting at 0.
\<close>

fun collapse :: "(real \<Rightarrow> real) \<Rightarrow> real \<Rightarrow> real list \<Rightarrow> real list" where
  "collapse plus_eps cursor [] = []"
| "collapse plus_eps cursor (b # bs) =
     (if b > plus_eps cursor then b # collapse plus_eps b bs else collapse plus_eps cursor bs)"

definition collapsed_markers :: "(real \<Rightarrow> real) \<Rightarrow> real list \<Rightarrow> real list" where
  "collapsed_markers plus_eps markers = collapse plus_eps 0 (sort (remdups markers))"

text \<open>The constant \<open>DEFAULT_TRIM_SETTINGS\<close> of the source.\<close>

definition DEFAULT_TRIM_SETTINGS :: trim_settings where
  "DEFAULT_TRIM_SETTINGS =
     \<lparr>clipDuration = 30, autoFit = Merge, remainderThreshold = 5, mode = Copy,
      template = ''{name}_part{index}_{start}-{end}''\<rparr>"

section \<open>Strings and number formatting\<close>

text \<open>
  Decimal digits of a natural number: \<open>Number.prototype.toString\<close> on a non-negative
  integer (the exponent notation of numbers from \<open>1e21\<close> on is not modelled).
\<close>

definition digit_char :: "nat \<Rightarrow> char" where
  "digit_char n = ''0123456789'' ! (n mod 10)"

fun nat_toString :: "nat \<Rightarrow> string" where
  "nat_toString n = (if 10 \<le> n then nat_toString (n div 10) else []) @ [digit_char n]"

declare nat_toString.simps [simp del]

definition int_toString :: "int \<Rightarrow> string" where
  "int_toString k =
     (if 0 \<le> k then nat_toString (nat k) else CHR ''-'' # nat_toString (nat (- k)))"

text \<open>\<open>String.prototype.padStart\<close> with a one-character filler.\<close>

definition padStart :: "nat \<Rightarrow> char \<Rightarrow> string \<Rightarrow> string" where
  "padStart n c s = replicate (n - length s) c @ s"

text \<open>
  \<open>Number.prototype.toFixed(3)\<close>: the sign, then the integer nearest to \<open>1000 * |x|\<close> (the
  larger one on a tie) written with at least four digits and a point before the last
  three.
\<close>

definition toFixed3 :: "real \<Rightarrow> string" where
  "toFixed3 x =
     (let s = (if x < 0 then ''-'' else '''');
          n = nat \<lfloor>\<bar>x\<bar> * 1000 + 1 / 2\<rfloor>;
          m = padStart 4 (CHR ''0'') (nat_toString n);
          k = length m
      in s @ take (k - 3) m @ ''.'' @ drop (k - 3) m)"

text \<open>
  \<open>GetSubstitution\<close> for a string pattern (no capture groups): in the replacement text
  \<open>$$\<close> is a dollar sign, \<open>$&\<close> the matched text, \<open>$`\<close> the text before the match and
  \<open>$'\<close> the text after it; any other character stands for itself.
\<close>

fun getSubstitution :: "string \<Rightarrow> string \<Rightarrow> string \<Rightarrow> string \<Rightarrow> string" where
  "getSubstitution matched pre post [] = []"
| "getSubstitution matched pre post [c] = [c]"
| "getSubstitution matched pre post (c # d # r) =
     (if c = CHR ''$'' \<and> d = CHR ''$'' then CHR ''$'' # getSubstitution matched pre post r
      else if c = CHR ''$'' \<and> d = CHR ''&'' then matched @ getSubstitution matched pre post r
      else if c = CHR ''$'' \<and> d = CHR 0x60 then pre @ getSubstitution matched pre post r
      else if c = CHR ''$'' \<and> d = CHR 0x27 then post @ getSubstitution matched pre post r
      else c # getSubstitution matched pre post (d # r))"

text \<open>
  \<open>String.prototype.replace\<close> with a string pattern: only the first occurrence of the
  pattern is replaced. \<open>pre\<close> is the text already passed.
\<close>

fun js_replace_from :: "string \<Rightarrow> string \<Rightarrow> string \<Rightarrow> string \<Rightarrow> string" where
  "js_replace_from pat rep pre s =
     (if prefix pat s
      then pre @ getSubstitution pat pre (drop (length pat) s) rep @ drop (length pat) s
      else (case s of [] \<Rightarrow> pre | c # cs \<Rightarrow> js_replace_from pat rep (pre @ [c]) cs))"

declare js_replace_from.simps [simp del]

definition js_replace :: "string \<Rightarrow> string \<Rightarrow> string \<Rightarrow> string" where
  "js_replace pat rep s = js_replace_from pat rep [] s"

text \<open>
  \<open>videoFile.name.replace(/\.[^/.]+$/, "")\<close>: the text after the last point is removed with
  the point, when that text is not empty and has no slash.
\<close>

definition baseName :: "string \<Rightarrow> string" where
  "baseName name =
     (let ext = rev (takeWhile (\<lambda>c. c \<noteq> CHR ''.'') (rev name))
      in if length ext < length name \<and> ext \<noteq> [] \<and> CHR ''/'' \<notin> set ext
         then take (length name - length ext - 1) name
         else name)"

definition generateClipName :: "string \<Rightarrow> string \<Rightarrow> nat \<Rightarrow> real \<Rightarrow> real \<Rightarrow> string" where
  "generateClipName fileName templ index start end' =
     js_replace ''{end}'' (int_toString \<lfloor>end'\<rfloor>)
       (js_replace ''{start}'' (int_toString \<lfloor>start\<rfloor>)
         (js_replace ''{index}'' (nat_toString (index + 1))
           (js_replace ''{part}'' (padStart 3 (CHR ''0'') (nat_toString (index + 1)))
             (js_replace ''{name}'' (baseName fileName) templ))))
     @ ''.mp4''"


section \<open>Argument construction\<close>

text \<open>\<open>premiumSettings\<close>: \<open>resize\<close> is toggled between \<open>'none'\<close> and \<open>'9:16'\<close>.\<close>

datatype resize = ResizeNone | Resize916

datatype quality = Low | Medium | High

record premium_settings =
  watermark :: string
  resize :: resize
  normalize :: bool
  quality :: quality

text \<open>The constant \<open>PREMIUM_SETTINGS\<close> of the source.\<close>

definition PREMIUM_SETTINGS :: premium_settings where
  "PREMIUM_SETTINGS =
     \<lparr>watermark = [], resize = ResizeNone, normalize = False, quality = Medium\<rparr>"

text \<open>
  The argument list that the loop body of \<open>processVideo\<close> builds for interval \<open>i\<close> of the
  file \<open>fileName\<close>, from \<open>let args = [...]\<close> to \<open>args.push(outputName)\<close>.
\<close>

definition buildArgs ::
  "string \<Rightarrow> trim_settings \<Rightarrow> premium_settings \<Rightarrow> nat \<Rightarrow> interval \<Rightarrow> string list" where
  "buildArgs fileName ts ps i iv =
     (let inputName = ''input_'' @ fileName;
          start = iv_start iv;
          end' = iv_end iv;
          clipDur = end' - start;
          outputName = generateClipName fileName (template ts) i start end';
          args = [''-ss'', toFixed3 start, ''-i'', inputName, ''-t'', toFixed3 clipDur]
      in (if mode ts = Copy \<and> resize ps = ResizeNone \<and> \<not> normalize ps \<and> watermark ps = []
          then args @ [''-c'', ''copy'']
          else
            (let filterComplex1 =
                   (if resize ps = Resize916
                    then ''[0:v]scale=1080:1920:force_original_aspect_ratio=increase,crop=1080:1920,boxblur=20:10[bg];''
                       @ ''[0:v]scale=1080:1920:force_original_aspect_ratio=decrease[fg];''
                       @ ''[bg][fg]overlay=(W-w)/2:(H-h)/2[v];''
                    else []);
                 lastLabel1 = (if resize ps = Resize916 then ''[v]'' else ''[0:v]'');
                 filterComplex2 =
                   (if watermark ps \<noteq> []
                    then filterComplex1 @ lastLabel1 @ ''drawtext=text='' @ [CHR 0x27]
                       @ watermark ps @ [CHR 0x27]
                       @ '':x=w-tw-20:y=h-th-20:fontsize=48:fontcolor=white:shadowcolor=black:shadowx=2:shadowy=2[v_out];''
                    else filterComplex1);
                 lastLabel2 = (if watermark ps \<noteq> [] then ''[v_out]'' else lastLabel1);
                 args1 =
                   (if filterComplex2 \<noteq> []
                    then args @ [''-filter_complex'',
                                 (if last filterComplex2 = CHR 0x3B
                                  then butlast filterComplex2 else filterComplex2),
                                 ''-map'', lastLabel2, ''-map'', ''0:a?'']
                    else args);
                 args2 = (if normalize ps then args1 @ [''-af'', ''loudnorm''] else args1)
             in args2 @ [''-c:v'', ''libx264'', ''-preset'', ''veryfast'', ''-crf'',
                         (if quality ps = High then ''18''
                          else if quality ps = Medium then ''23'' else ''28'')]
                     @ [''-c:a'', ''aac'', ''-b:a'', ''128k'']))
         @ [outputName])"

section \<open>The job driver\<close>

text \<open>
  A generated clip. The random \<open>id\<close> of the source is left out; \<open>clip_url\<close> and \<open>thumbUrl\<close>
  are the object URLs of the clip and of its thumbnail.
\<close>

record clip =
  clip_url :: string
  thumbUrl :: string
  clip_name :: string
  clip_index :: nat
  startTime :: real
  endTime :: real
  clip_duration :: real

text \<open>The messages that \<open>processVideo\<close> and \<open>cancelProcessing\<close> set.\<close>

datatype message =
    MsgOther
  | MsgNoClips
  | MsgCancelling
  | MsgCancelled
  | MsgDone
  | MsgError

text \<open>
  The state the driver reads and writes: the flag \<open>shouldProcessRef.current\<close>, the
  \<open>clips\<close> and \<open>message\<close> of the component, \<open>isProcessing\<close>, and the argument lists passed
  to \<open>ffmpeg.exec\<close> so far, oldest first. Progress, current task and history are display
  only and left out.
\<close>

record driver_state =
  shouldProcess :: bool
  clips :: "clip list"
  message :: message
  isProcessing :: bool
  execLog :: "string list list"

text \<open>
  What happens while one iteration awaits the engine: \<open>main_result\<close> is the object URL
  of the clip, or \<open>None\<close> when \<open>ffmpeg.exec\<close> or \<open>ffmpeg.readFile\<close> throws for the clip;
  \<open>thumb_result\<close> is the same for the thumbnail; \<open>cancel_clicked\<close> says that
  \<open>cancelProcessing\<close> ran during the iteration.
\<close>

record engine_step =
  main_result :: "string option"
  thumb_result :: "string option"
  cancel_clicked :: bool

text \<open>\<open>cancelProcessing\<close>.\<close>

definition cancelProcessing :: "driver_state \<Rightarrow> driver_state" where
  "cancelProcessing st = st\<lparr>shouldProcess := False, message := MsgCancelling\<rparr>"

text \<open>
  The \<open>for\<close> loop over the intervals, from index \<open>i\<close> on. \<open>Inl\<close> is an exception leaving
  the loop (a failed engine call for the clip), with the state at that moment; \<open>Inr\<close> is
  the state when the loop ends or breaks.
\<close>

fun process_loop ::
  "string \<Rightarrow> trim_settings \<Rightarrow> premium_settings \<Rightarrow> (nat \<Rightarrow> engine_step) \<Rightarrow>
   nat \<Rightarrow> interval list \<Rightarrow> clip list \<Rightarrow> driver_state \<Rightarrow> driver_state + driver_state" where
  "process_loop fileName ts ps env i [] generatedClips st = Inr st"
| "process_loop fileName ts ps env i (iv # rest) generatedClips st =
     (if \<not> shouldProcess st \<and> i > 0 then Inr (st\<lparr>message := MsgCancelled\<rparr>)
      else
        (let start = iv_start iv;
             end' = iv_end iv;
             clipDur = end' - start;
             outputName = generateClipName fileName (template ts) i start end';
             args = buildArgs fileName ts ps i iv;
             st1 = st\<lparr>execLog := execLog st @ [args]\<rparr>;
             st2 = (if cancel_clicked (env i) then cancelProcessing st1 else st1)
         in case main_result (env i) of
              None \<Rightarrow> Inl st2
            | Some url \<Rightarrow>
               (let thumbName = ''thumb_'' @ nat_toString i @ ''.jpg'';
                    thumbArgs = [''-ss'', toFixed3 start, ''-i'', ''input_'' @ fileName,
                                 ''-vframes'', ''1'', ''-q:v'', ''2'', thumbName];
                    st3 = st2\<lparr>execLog := execLog st2 @ [thumbArgs]\<rparr>;
                    newClip = \<lparr>clip_url = url,
                               thumbUrl = (case thumb_result (env i) of
                                             Some thumb \<Rightarrow> thumb | None \<Rightarrow> []),
                               clip_name = outputName, clip_index = i,
                               startTime = start, endTime = end', clip_duration = clipDur\<rparr>;
                    generatedClips1 = generatedClips @ [newClip]
                in process_loop fileName ts ps env (i + 1) rest generatedClips1
                     (st3\<lparr>clips := generatedClips1\<rparr>))))"

text \<open>What happens while \<open>processVideo\<close> awaits \<open>ffmpeg.writeFile\<close>, before the loop.\<close>

record setup_step =
  writeFile_ok :: bool
  cancel_in_setup :: bool

text \<open>The \<open>finally\<close> block of \<open>processVideo\<close>.\<close>

definition finally_block :: "driver_state \<Rightarrow> driver_state" where
  "finally_block st = st\<lparr>isProcessing := False, shouldProcess := False\<rparr>"

text \<open>
  \<open>processVideo\<close>, for a finite duration. \<open>videoFile\<close> is the name of the loaded
  file, if any. The result is \<open>None\<close> when the planning loop runs forever.
\<close>

definition processVideo ::
  "(real \<Rightarrow> real) \<Rightarrow> string option \<Rightarrow> bool \<Rightarrow> real list \<Rightarrow> real \<Rightarrow> trim_settings \<Rightarrow>
   premium_settings \<Rightarrow> setup_step \<Rightarrow> (nat \<Rightarrow> engine_step) \<Rightarrow> driver_state \<Rightarrow>
   driver_state option" where
  "processVideo plus_eps videoFile loaded markers duration ts ps prep env st =
     (case videoFile of
        None \<Rightarrow> Some st
      | Some fileName \<Rightarrow>
         if \<not> loaded then Some st
         else
           (let st1 = st\<lparr>shouldProcess := True, isProcessing := True, clips := []\<rparr>;
                st2 = (if cancel_in_setup prep then cancelProcessing st1 else st1)
            in if \<not> writeFile_ok prep
               then Some (finally_block (st2\<lparr>message := MsgError\<rparr>))
               else
                 (case planIntervals plus_eps markers duration ts of
                    None \<Rightarrow> None
                  | Some intervals \<Rightarrow>
                     if length intervals = 0
                     then Some (finally_block (st2\<lparr>message := MsgNoClips, isProcessing := False\<rparr>))
                     else
                       (case process_loop fileName ts ps env 0 intervals [] st2 of
                          Inl st3 \<Rightarrow> Some (finally_block (st3\<lparr>message := MsgError\<rparr>))
                        | Inr st3 \<Rightarrow>
                           Some (finally_block
                             (if shouldProcess st3 then st3\<lparr>message := MsgDone\<rparr> else st3))))))"

text \<open>A state before any job has run.\<close>

definition initial_state :: driver_state where
  "initial_state =
     \<lparr>shouldProcess = False, clips = [], message = MsgOther, isProcessing = False,
      execLog = []\<rparr>"







text \<open>The number a string of decimal digits stands for; leading zeros do not count.\<close>

definition digit_val :: "char \<Rightarrow> nat" where
  "digit_val c = length (takeWhile (\<lambda>d. d \<noteq> c) ''0123456789'')"

definition nat_of_digits :: "string \<Rightarrow> nat" where
  "nat_of_digits s = foldl (\<lambda>a c. 10 * a + digit_val c) 0 s"

text \<open>
  A name template in which some tokens have already been replaced: a list of fixed
  characters and of slots, a slot standing for the number put in the place of a token.
  \<open>inst\<close> writes the numbers into the slots; \<open>fill\<close> is \<open>js_replace\<close> on such a
  list: the first occurrence of the token becomes the slot.
\<close>

datatype slot = PartSlot | IndexSlot | StartSlot | EndSlot

datatype item = Ch char | Hole slot

fun inst :: "(slot \<Rightarrow> string) \<Rightarrow> item list \<Rightarrow> string" where
  "inst \<rho> [] = []"
| "inst \<rho> (Ch c # rest) = c # inst \<rho> rest"
| "inst \<rho> (Hole h # rest) = \<rho> h @ inst \<rho> rest"

fun fill_from :: "string \<Rightarrow> slot \<Rightarrow> item list \<Rightarrow> item list \<Rightarrow> item list" where
  "fill_from pat h pre [] = (if pat = [] then pre @ [Hole h] else pre)"
| "fill_from pat h pre (x # xs) =
     (if prefix (map Ch pat) (x # xs)
      then pre @ [Hole h] @ drop (length pat) (x # xs)
      else fill_from pat h (pre @ [x]) xs)"

definition fill :: "string \<Rightarrow> slot \<Rightarrow> item list \<Rightarrow> item list" where
  "fill pat h s = fill_from pat h [] s"

text \<open>The slots of a list.\<close>

definition holes :: "item list \<Rightarrow> slot set" where
  "holes s = {h. Hole h \<in> set s}"

text \<open>The numbers that \<open>generateClipName\<close> puts in place of the tokens.\<close>

fun slot_text :: "nat \<Rightarrow> real \<Rightarrow> real \<Rightarrow> slot \<Rightarrow> string" where
  "slot_text index start end' PartSlot = padStart 3 (CHR ''0'') (nat_toString (index + 1))"
| "slot_text index start end' IndexSlot = nat_toString (index + 1)"
| "slot_text index start end' StartSlot = int_toString \<lfloor>start\<rfloor>"
| "slot_text index start end' EndSlot = int_toString \<lfloor>end'\<rfloor>"

text \<open>The template of \<open>generateClipName\<close> after the base name went in, with the slots
  for the four numbers.\<close>

definition name_items :: "string \<Rightarrow> string \<Rightarrow> item list" where
  "name_items fileName templ =
     fill ''{end}'' EndSlot
       (fill ''{start}'' StartSlot
         (fill ''{index}'' IndexSlot
           (fill ''{part}'' PartSlot
             (map Ch (js_replace ''{name}'' (baseName fileName) templ)))))"

text \<open>A non-empty string of decimal digits and minus signs.\<close>

definition numeric :: "string \<Rightarrow> bool" where
  "numeric s \<longleftrightarrow> s \<noteq> [] \<and> set s \<subseteq> set ''0123456789-''"

section \<open>The fixed-duration loop\<close>

lemma fixed_loop_unfold:
  "fixed_loop (Seconds d) ts cur acc =
     (if cur < d then
        (if stops_here d ts cur
         then Some (acc @ [\<lparr>iv_start = cur, iv_end = next_end d ts cur\<rparr>])
         else fixed_loop (Seconds d) ts (next_end d ts cur)
                (acc @ [\<lparr>iv_start = cur, iv_end = next_end d ts cur\<rparr>]))
      else Some acc)"
  by (subst fixed_loop.simps)
     (auto simp: stops_here_def discards_here_def next_end_def Let_def)

lemma next_end_continue:
  assumes "\<not> stops_here d ts cur"
  shows "next_end d ts cur = cur + clipDuration ts" and "cur + clipDuration ts < d"
  using assms by (auto simp: stops_here_def discards_here_def next_end_def Let_def min_def split: if_splits)

lemma iterations_decrease:
  fixes c :: real
  assumes "0 < c" "cur + c < d"
  shows "nat \<lceil>(d - (cur + c)) / c\<rceil> < nat \<lceil>(d - cur) / c\<rceil>"
proof -
  have "(d - cur) / c = (d - (cur + c)) / c + 1"
    using assms by (simp add: field_simps)
  then have "\<lceil>(d - cur) / c\<rceil> = \<lceil>(d - (cur + c)) / c\<rceil> + 1"
    by simp
  moreover have "0 < (d - (cur + c)) / c" using assms by simp
  then have "0 < \<lceil>(d - (cur + c)) / c\<rceil>" by linarith
  ultimately show ?thesis by linarith
qed

lemma fixed_loop_total:
  assumes c: "0 < clipDuration ts"
  shows "\<exists>ivs. fixed_loop (Seconds d) ts cur acc = Some (acc @ ivs) \<and> fixed_run d ts cur ivs"
proof (induction "nat \<lceil>(d - cur) / clipDuration ts\<rceil>" arbitrary: cur acc rule: less_induct)
  case less
  show ?case
  proof (cases "cur < d")
    case False
    then show ?thesis
      by (subst fixed_loop_unfold) (auto intro: fixed_run.intros)
  next
    case True
    show ?thesis
    proof (cases "stops_here d ts cur")
      case True
      with \<open>cur < d\<close> show ?thesis
        by (subst fixed_loop_unfold) (auto intro: fixed_run.intros)
    next
      case False
      let ?iv = "\<lparr>iv_start = cur, iv_end = next_end d ts cur\<rparr>"
      from False have ne: "next_end d ts cur = cur + clipDuration ts"
        and lt: "cur + clipDuration ts < d"
        by (rule next_end_continue)+
      have "nat \<lceil>(d - next_end d ts cur) / clipDuration ts\<rceil>
              < nat \<lceil>(d - cur) / clipDuration ts\<rceil>"
        unfolding ne using c lt by (rule iterations_decrease)
      from less[OF this, of "acc @ [?iv]"]
      obtain ivs where r: "fixed_loop (Seconds d) ts (next_end d ts cur) (acc @ [?iv]) =
          Some ((acc @ [?iv]) @ ivs)"
        and run: "fixed_run d ts (next_end d ts cur) ivs"
        by blast
      have "fixed_loop (Seconds d) ts cur acc = Some (acc @ (?iv # ivs))"
        using \<open>cur < d\<close> False r by (subst fixed_loop_unfold) simp
      moreover have "fixed_run d ts cur (?iv # ivs)"
        using \<open>cur < d\<close> False run by (rule run_step)
      ultimately show ?thesis by blast
    qed
  qed
qed

lemma fixed_loop_returns_finite:
  assumes "fixed_loop d ts cur acc = Some r"
  shows "d \<noteq> Unbounded"
  by (rule fixed_loop.raw_induct[where P = "\<lambda>d ts cur acc r. d \<noteq> Unbounded", OF _ assms])
     (fastforce simp: Let_def split: media_duration.splits if_splits)

lemma fixed_loop_unbounded: "fixed_loop Unbounded ts cur acc = None"
  using fixed_loop_returns_finite[of Unbounded ts cur acc]
  by (cases "fixed_loop Unbounded ts cur acc") auto

lemma fixed_loop_finite:
  assumes "0 < clipDuration ts"
  shows "\<exists>ivs. fixed_loop (Seconds d) ts 0 [] = Some ivs \<and> fixed_run d ts 0 ivs"
  using fixed_loop_total[OF assms, of d 0 "[]"] by simp

lemma next_end_bounds:
  assumes "0 < clipDuration ts" "cur < d"
  shows "cur < next_end d ts cur" and "next_end d ts cur \<le> d"
  using assms by (auto simp: next_end_def Let_def min_def)

lemma fixed_run_empty_iff:
  "fixed_run d ts cur ivs \<Longrightarrow> (ivs = [] \<longleftrightarrow> d \<le> cur)"
  by (induction rule: fixed_run.induct) auto

lemma fixed_run_hd:
  "fixed_run d ts cur ivs \<Longrightarrow> ivs \<noteq> [] \<Longrightarrow> iv_start (hd ivs) = cur"
  by (induction rule: fixed_run.induct) auto

lemma fixed_run_gap_free:
  "fixed_run d ts cur ivs \<Longrightarrow> gap_free ivs"
proof (induction rule: fixed_run.induct)
  case (run_step cur ivs)
  then show ?case
    using fixed_run_hd[OF run_step.hyps(3)] by (cases ivs) auto
qed auto

lemma fixed_run_length:
  assumes c: "0 < clipDuration ts"
  shows "fixed_run d ts cur ivs \<Longrightarrow> length ivs \<le> nat \<lceil>(d - cur) / clipDuration ts\<rceil>"
proof (induction rule: fixed_run.induct)
  case (run_done cur)
  then show ?case by simp
next
  case (run_stop cur)
  then have "0 < (d - cur) / clipDuration ts" using c by simp
  then have "0 < \<lceil>(d - cur) / clipDuration ts\<rceil>" by linarith
  then have "1 \<le> nat \<lceil>(d - cur) / clipDuration ts\<rceil>" by linarith
  then show ?case by simp
next
  case (run_step cur ivs)
  from run_step.hyps(2) have ne: "next_end d ts cur = cur + clipDuration ts"
    and lt: "cur + clipDuration ts < d"
    by (rule next_end_continue)+
  from iterations_decrease[OF c lt] run_step.IH
  have "length ivs < nat \<lceil>(d - cur) / clipDuration ts\<rceil>"
    unfolding ne by linarith
  then show ?case by simp
qed

lemma fixed_run_bounds:
  assumes c: "0 < clipDuration ts"
  shows "fixed_run d ts cur ivs \<Longrightarrow>
    \<forall>iv \<in> set ivs. cur \<le> iv_start iv \<and> iv_start iv < iv_end iv \<and> iv_end iv \<le> d"
proof (induction rule: fixed_run.induct)
  case (run_done cur)
  then show ?case by simp
next
  case (run_stop cur)
  then show ?case using next_end_bounds[OF c, of cur d] by simp
next
  case (run_step cur ivs)
  then show ?case using next_end_bounds[OF c, of cur d] by fastforce
qed

lemma fixed_run_merge_last:
  assumes c: "0 < clipDuration ts" and m: "autoFit ts = Merge"
  shows "fixed_run d ts cur ivs \<Longrightarrow> ivs \<noteq> [] \<Longrightarrow> iv_end (last ivs) = d"
proof (induction rule: fixed_run.induct)
  case (run_stop cur)
  then show ?case using next_end_bounds[OF c, of cur d] m
    by (auto simp: stops_here_def discards_here_def)
next
  case (run_step cur ivs)
  then show ?case using fixed_run_empty_iff[OF run_step.hyps(3)] next_end_continue[OF run_step.hyps(2)]
    by auto
qed auto

section \<open>The marker loop\<close>

lemma marker_loop_acc:
  "marker_loop plus_eps l xs acc = acc @ marker_loop plus_eps l xs []"
proof (induction xs arbitrary: l acc)
  case Nil
  show ?case by simp
next
  case (Cons m ms)
  show ?case
    using Cons.IH[of m "acc @ [\<lparr>iv_start = l, iv_end = m\<rparr>]"] Cons.IH[of m acc]
          Cons.IH[of m "[\<lparr>iv_start = l, iv_end = m\<rparr>]"]
    by simp
qed

lemma marker_loop_Cons:
  "marker_loop plus_eps l (m # ms) [] =
     (if plus_eps l < m then [\<lparr>iv_start = l, iv_end = m\<rparr>] else []) @ marker_loop plus_eps m ms []"
  using marker_loop_acc[of plus_eps m ms "[\<lparr>iv_start = l, iv_end = m\<rparr>]"] by simp

lemma marker_loop_well_spaced:
  assumes "well_spaced plus_eps (l # xs)"
  shows "(marker_loop plus_eps l xs [] = [] \<and> (\<forall>x \<in> set xs. x = l)) \<or>
         (marker_loop plus_eps l xs [] \<noteq> [] \<and> iv_start (hd (marker_loop plus_eps l xs [])) = l \<and>
          gap_free (marker_loop plus_eps l xs []) \<and> iv_end (last (marker_loop plus_eps l xs [])) = last (l # xs))"
  using assms
proof (induction xs arbitrary: l)
  case Nil
  show ?case by simp
next
  case (Cons m ms)
  from Cons.prems have ws: "well_spaced plus_eps (m # ms)" and step: "m = l \<or> plus_eps l < m"
    by simp_all
  note IH = Cons.IH[OF ws]
  show ?case
  proof (cases "plus_eps l < m")
    case False
    with step have "m = l" by simp
    with IH False show ?thesis by (simp add: marker_loop_Cons del: marker_loop.simps(2))
  next
    case True
    from IH show ?thesis
    proof
      assume "marker_loop plus_eps m ms [] = [] \<and> (\<forall>x\<in>set ms. x = m)"
      then show ?thesis using True last_in_set[of ms] by (auto simp add: marker_loop_Cons simp del: marker_loop.simps(2))
    next
      assume a: "marker_loop plus_eps m ms [] \<noteq> [] \<and> iv_start (hd (marker_loop plus_eps m ms [])) = m \<and>
          gap_free (marker_loop plus_eps m ms []) \<and> iv_end (last (marker_loop plus_eps m ms [])) = last (m # ms)"
      then obtain b rest where br: "marker_loop plus_eps m ms [] = b # rest"
        by (cases "marker_loop plus_eps m ms []") auto
      with a True show ?thesis by (simp add: marker_loop_Cons del: marker_loop.simps(2))
    qed
  qed
qed

lemma funpow_mono_sum:
  fixes g :: "real \<Rightarrow> real"
  assumes "mono g"
  shows "x \<le> y \<Longrightarrow> (g ^^ n) x \<le> (g ^^ n) y"
  using assms by (induction n) (auto dest: monoD)

lemma marker_loop_empty_bound:
  assumes g: "mono plus_eps"
  shows "marker_loop plus_eps l xs [] = [] \<Longrightarrow> xs \<noteq> [] \<Longrightarrow>
         last xs \<le> (plus_eps ^^ length xs) l"
proof (induction xs arbitrary: l)
  case Nil
  then show ?case by simp
next
  case (Cons m ms)
  from Cons.prems(1) have nj: "m \<le> plus_eps l" and e: "marker_loop plus_eps m ms [] = []"
    by (auto simp add: marker_loop_Cons simp del: marker_loop.simps(2) split: if_splits)
  show ?case
  proof (cases "ms = []")
    case True
    with nj show ?thesis by simp
  next
    case False
    from Cons.IH[OF e False] have "last ms \<le> (plus_eps ^^ length ms) m" .
    also from funpow_mono_sum[OF g nj] have "\<dots> \<le> (plus_eps ^^ length ms) (plus_eps l)" .
    finally show ?thesis using False by (simp add: funpow_swap1)
  qed
qed

lemma marker_loop_small:
  assumes g: "mono plus_eps"
  shows "0 \<le> l \<Longrightarrow> \<forall>x \<in> set xs. 0 \<le> x \<and> x \<le> plus_eps 0 \<Longrightarrow>
         marker_loop plus_eps l xs [] = []"
proof (induction xs arbitrary: l)
  case Nil
  show ?case by simp
next
  case (Cons m ms)
  from Cons.prems have m: "0 \<le> m" "m \<le> plus_eps 0" by simp_all
  from monoD[OF g Cons.prems(1)] m have "\<not> plus_eps l < m" by simp
  moreover from Cons.IH[OF m(1)] Cons.prems(2) have "marker_loop plus_eps m ms [] = []" by simp
  ultimately show ?case by (simp add: marker_loop_Cons del: marker_loop.simps(2))
qed

lemma insort_snoc:
  fixes d :: real
  shows "a \<le> d \<Longrightarrow> insort a (xs @ [d]) = insort a xs @ [d]"
  by (induction xs) auto

lemma sort_snoc_max:
  fixes d :: real
  assumes "\<forall>m \<in> set ms. m \<le> d"
  shows "sort (ms @ [d]) = sort ms @ [d]"
  using assms
proof (induction ms)
  case Nil
  show ?case by simp
next
  case (Cons a ms)
  then show ?case by (simp add: insort_snoc)
qed

lemma fixed_run_advance:
  "fixed_run d ts cur ivs \<Longrightarrow>
     \<forall>i. Suc i < length ivs \<longrightarrow>
       iv_start (ivs ! Suc i) = iv_start (ivs ! i) + clipDuration ts \<and>
       iv_start (ivs ! Suc i) < d"
proof (induction rule: fixed_run.induct)
  case (run_step cur ivs)
  from run_step.hyps(2) have ne: "next_end d ts cur = cur + clipDuration ts"
    and lt: "cur + clipDuration ts < d"
    by (rule next_end_continue)+
  show ?case
  proof (intro allI impI)
    fix i
    assume i: "Suc i < length (\<lparr>iv_start = cur, iv_end = next_end d ts cur\<rparr> # ivs)"
    show "iv_start ((\<lparr>iv_start = cur, iv_end = next_end d ts cur\<rparr> # ivs) ! Suc i) =
            iv_start ((\<lparr>iv_start = cur, iv_end = next_end d ts cur\<rparr> # ivs) ! i) + clipDuration ts \<and>
          iv_start ((\<lparr>iv_start = cur, iv_end = next_end d ts cur\<rparr> # ivs) ! Suc i) < d"
    proof (cases i)
      case 0
      with i have "ivs \<noteq> []" by auto
      with fixed_run_hd[OF run_step.hyps(3)] have "iv_start (ivs ! 0) = next_end d ts cur"
        by (simp add: hd_conv_nth)
      with 0 ne lt show ?thesis by simp
    next
      case (Suc j)
      with i run_step.IH[rule_format, of j] show ?thesis by simp
    qed
  qed
qed auto

lemma fixed_run_discard_end:
  "fixed_run d ts cur ivs \<Longrightarrow> autoFit ts = Discard \<Longrightarrow>
     \<forall>iv \<in> set ivs. iv_end iv = min (iv_start iv + clipDuration ts) d"
  by (induction rule: fixed_run.induct) (auto simp: next_end_def Let_def)

lemma fixed_run_discard_last:
  assumes c: "0 < clipDuration ts" and "autoFit ts = Discard"
  shows "fixed_run d ts cur ivs \<Longrightarrow> ivs \<noteq> [] \<Longrightarrow>
     iv_end (last ivs) < d \<Longrightarrow> d - iv_end (last ivs) < remainderThreshold ts"
proof (induction rule: fixed_run.induct)
  case (run_stop cur)
  then show ?case using assms
    by (auto simp: stops_here_def discards_here_def next_end_def Let_def)
next
  case (run_step cur ivs)
  then show ?case using fixed_run_empty_iff[OF run_step.hyps(3)] next_end_continue[OF run_step.hyps(2)]
    by auto
qed auto

lemma fixed_run_discard_tail:
  assumes c: "0 < clipDuration ts" and dis: "autoFit ts = Discard"
  shows "fixed_run d ts cur ivs \<Longrightarrow>
     \<forall>i. 0 < i \<and> i < length ivs \<and> iv_end (ivs ! i) = d \<longrightarrow>
        remainderThreshold ts \<le> iv_end (ivs ! i) - iv_start (ivs ! i)"
proof (induction rule: fixed_run.induct)
  case (run_step cur ivs)
  from run_step.hyps(2) have ne: "next_end d ts cur = cur + clipDuration ts"
    and lt: "cur + clipDuration ts < d"
    by (rule next_end_continue)+
  from run_step.hyps(2) dis lt
  have thr: "remainderThreshold ts \<le> d - (cur + clipDuration ts)"
    by (auto simp: stops_here_def discards_here_def Let_def min_def split: if_splits)
  show ?case
  proof (intro allI impI)
    fix i
    assume i: "0 < i \<and> i < length (\<lparr>iv_start = cur, iv_end = next_end d ts cur\<rparr> # ivs) \<and>
       iv_end ((\<lparr>iv_start = cur, iv_end = next_end d ts cur\<rparr> # ivs) ! i) = d"
    then obtain j where j: "i = Suc j" by (cases i) auto
    show "remainderThreshold ts
            \<le> iv_end ((\<lparr>iv_start = cur, iv_end = next_end d ts cur\<rparr> # ivs) ! i)
               - iv_start ((\<lparr>iv_start = cur, iv_end = next_end d ts cur\<rparr> # ivs) ! i)"
    proof (cases j)
      case 0
      with i j have "ivs \<noteq> []" by auto
      with fixed_run_hd[OF run_step.hyps(3)] have "iv_start (ivs ! 0) = next_end d ts cur"
        by (simp add: hd_conv_nth)
      with 0 i j ne thr show ?thesis by simp
    next
      case (Suc k)
      with i j run_step.IH[rule_format, of j] show ?thesis by simp
    qed
  qed
qed auto

lemma fixed_run_ends_le_last:
  assumes c: "0 < clipDuration ts"
  shows "fixed_run d ts cur ivs \<Longrightarrow> \<forall>iv \<in> set ivs. iv_end iv \<le> iv_end (last ivs)"
proof (induction rule: fixed_run.induct)
  case (run_step cur ivs)
  from fixed_run_empty_iff[OF run_step.hyps(3)] next_end_continue[OF run_step.hyps(2)]
  have ne: "ivs \<noteq> []" by auto
  then have "last ivs \<in> set ivs" by simp
  with fixed_run_bounds[OF c run_step.hyps(3)]
  have "next_end d ts cur < iv_end (last ivs)" by fastforce
  with run_step.IH ne show ?case by auto
qed auto

lemma planIntervals_fixed:
  assumes "0 < clipDuration ts"
  shows "\<exists>ivs. planIntervals plus_eps [] d ts = Some ivs \<and> fixed_run d ts 0 ivs"
  using fixed_loop_total[OF assms, of d 0 "[]"] by (simp add: planIntervals_def)

section \<open>Claims about the planner\<close>

text \<open>
  C1, as amended. For a finite duration above 0 the planner's intervals start at 0, are
  gap-free and end at the duration: in fixed-interval merge mode with a positive clip
  duration, and in marker mode (markers in [0, duration]) when any two consecutive
  boundaries of 0, the sorted markers and the duration are either equal or pass the test
  of the loop: the later one is above the sum of the earlier one and 0.1, as the code
  computes that sum.
\<close>

theorem C1_sequence_invariant:
  assumes "0 < duration"
    and "(markers \<noteq> [] \<and> (\<forall>m \<in> set markers. 0 \<le> m \<and> m \<le> duration) \<and>
          well_spaced plus_eps (0 # sort (markers @ [duration]))) \<or>
         (markers = [] \<and> 0 < clipDuration ts \<and> autoFit ts = Merge)"
  shows "\<exists>ivs. planIntervals plus_eps markers duration ts = Some ivs \<and> seq_invariant duration ivs"
  using assms(2)
proof
  assume m: "markers \<noteq> [] \<and> (\<forall>m \<in> set markers. 0 \<le> m \<and> m \<le> duration) \<and>
          well_spaced plus_eps (0 # sort (markers @ [duration]))"
  let ?bs = "sort (markers @ [duration])"
  let ?ivs = "marker_loop plus_eps 0 ?bs []"
  from m have bs: "?bs = sort markers @ [duration]"
    by (intro sort_snoc_max) simp
  then have last: "last (0 # ?bs) = duration" by simp
  have "duration \<in> set ?bs" by simp
  with \<open>0 < duration\<close> have "\<not> (\<forall>x \<in> set ?bs. x = 0)" by (metis less_irrefl)
  moreover from m have "well_spaced plus_eps (0 # ?bs)" by blast
  ultimately have "?ivs \<noteq> [] \<and> iv_start (hd ?ivs) = 0 \<and> gap_free ?ivs \<and>
      iv_end (last ?ivs) = last (0 # ?bs)"
    using marker_loop_well_spaced[of plus_eps 0 ?bs] by blast
  then have "seq_invariant duration ?ivs"
    by (simp only: seq_invariant_def last) simp
  moreover from m have "planIntervals plus_eps markers duration ts = Some ?ivs"
    by (simp add: planIntervals_def)
  ultimately show ?thesis by blast
next
  assume f: "markers = [] \<and> 0 < clipDuration ts \<and> autoFit ts = Merge"
  then obtain ivs where p: "planIntervals plus_eps [] duration ts = Some ivs"
    and run: "fixed_run duration ts 0 ivs"
    using planIntervals_fixed by blast
  from fixed_run_empty_iff[OF run] \<open>0 < duration\<close> have ne: "ivs \<noteq> []" by simp
  from fixed_run_hd[OF run ne] fixed_run_gap_free[OF run] fixed_run_merge_last[OF _ _ run ne] f ne
  have "seq_invariant duration ivs" by (simp add: seq_invariant_def)
  with p f show ?thesis by blast
qed

theorem C1_sequence_invariant_witness:
  "(0::real) < 30 \<and> well_spaced eps_sum (0 # sort ([10, 20] @ [30])) \<and>
   (\<exists>ivs. planIntervals eps_sum [10, 20] 30 DEFAULT_TRIM_SETTINGS = Some ivs \<and> seq_invariant 30 ivs) \<and>
   (0::real) < 65 \<and> 0 < clipDuration DEFAULT_TRIM_SETTINGS \<and>
   autoFit DEFAULT_TRIM_SETTINGS = Merge \<and>
   (\<exists>ivs. planIntervals eps_sum [] 65 DEFAULT_TRIM_SETTINGS = Some ivs \<and> seq_invariant 65 ivs)"
  using C1_sequence_invariant[where duration = 30 and markers = "[10, 20]"
          and plus_eps = eps_sum and ts = DEFAULT_TRIM_SETTINGS]
        C1_sequence_invariant[where duration = 65 and markers = "[]"
          and plus_eps = eps_sum and ts = DEFAULT_TRIM_SETTINGS]
  by (simp add: DEFAULT_TRIM_SETTINGS_def eps_sum_def)

theorem C1_counterexample:
  "(0::real) < 10 \<and> (0::real) \<le> 5 \<and> (5::real) \<le> 10 \<and> (0::real) \<le> 101 / 20 \<and> (101 / 20 ::real) \<le> 10 \<and>
   planIntervals eps_sum [5, 101 / 20] 10 DEFAULT_TRIM_SETTINGS =
     Some [\<lparr>iv_start = 0, iv_end = 5\<rparr>, \<lparr>iv_start = 101 / 20, iv_end = 10\<rparr>] \<and>
   \<not> seq_invariant 10 [\<lparr>iv_start = 0, iv_end = 5\<rparr>, \<lparr>iv_start = 101 / 20, iv_end = 10\<rparr>]"
  by (simp add: planIntervals_def seq_invariant_def eps_sum_def)

text \<open>
  C5, as amended. For duration 95, clip duration 30, threshold 5 and merge, the planner
  produces [0,30], [30,60], [60,90], [90,95]: at 90 the remainder 5 equals the threshold,
  the strict comparison does not merge, and the remainder becomes an interval of its own.
\<close>

theorem C5_scenario_95:
  "planIntervals plus_eps [] 95
     \<lparr>clipDuration = 30, autoFit = Merge, remainderThreshold = 5, mode = m, template = t\<rparr> =
   Some [\<lparr>iv_start = 0, iv_end = 30\<rparr>, \<lparr>iv_start = 30, iv_end = 60\<rparr>,
         \<lparr>iv_start = 60, iv_end = 90\<rparr>, \<lparr>iv_start = 90, iv_end = 95\<rparr>]"
  by (simp add: planIntervals_def fixed_loop.simps)

theorem C5_counterexample:
  "planIntervals eps_sum [] 95 DEFAULT_TRIM_SETTINGS \<noteq>
   Some [\<lparr>iv_start = 0, iv_end = 30\<rparr>, \<lparr>iv_start = 30, iv_end = 60\<rparr>,
         \<lparr>iv_start = 60, iv_end = 95\<rparr>]"
  by (simp add: planIntervals_def fixed_loop.simps DEFAULT_TRIM_SETTINGS_def)

text \<open>
  C10, as amended. With a positive clip duration the fixed-interval loop terminates for
  every finite duration, after at most \<open>\<lceil>duration / clipDuration\<rceil>\<close> iterations (each
  iteration pushes one interval); every iteration moves the cursor strictly forward, and
  from one iteration to the next the cursor advances by
  \<open>min clipDuration (duration - cursor)\<close>. For the duration \<open>+Infinity\<close> the loop never
  terminates.
\<close>

theorem C10_fixed_loop_terminates:
  assumes "0 < clipDuration ts"
  shows "(\<exists>ivs. fixed_loop (Seconds duration) ts 0 [] = Some ivs \<and>
           planIntervals plus_eps [] duration ts = Some ivs \<and>
           length ivs \<le> nat \<lceil>duration / clipDuration ts\<rceil> \<and>
           (\<forall>iv \<in> set ivs. iv_start iv < iv_end iv) \<and>
           (\<forall>i. Suc i < length ivs \<longrightarrow>
              iv_start (ivs ! i) < iv_start (ivs ! Suc i) \<and>
              iv_start (ivs ! Suc i) =
                iv_start (ivs ! i) + min (clipDuration ts) (duration - iv_start (ivs ! i)))) \<and>
         fixed_loop Unbounded ts 0 [] = None"
proof -
  from fixed_loop_finite[OF assms, of duration]
  obtain ivs where p: "fixed_loop (Seconds duration) ts 0 [] = Some ivs"
    and run: "fixed_run duration ts 0 ivs"
    by blast
  from p have q: "planIntervals plus_eps [] duration ts = Some ivs"
    by (simp add: planIntervals_def)
  have len: "length ivs \<le> nat \<lceil>duration / clipDuration ts\<rceil>"
    using fixed_run_length[OF assms run] by simp
  have pos: "\<forall>iv \<in> set ivs. iv_start iv < iv_end iv"
    using fixed_run_bounds[OF assms run] by blast
  have adv: "\<forall>i. Suc i < length ivs \<longrightarrow>
              iv_start (ivs ! i) < iv_start (ivs ! Suc i) \<and>
              iv_start (ivs ! Suc i) =
                iv_start (ivs ! i) + min (clipDuration ts) (duration - iv_start (ivs ! i))"
  proof (intro allI impI)
    fix i assume "Suc i < length ivs"
    with fixed_run_advance[OF run]
    have "iv_start (ivs ! Suc i) = iv_start (ivs ! i) + clipDuration ts"
      and "iv_start (ivs ! Suc i) < duration"
      by blast+
    with assms show "iv_start (ivs ! i) < iv_start (ivs ! Suc i) \<and>
              iv_start (ivs ! Suc i) =
                iv_start (ivs ! i) + min (clipDuration ts) (duration - iv_start (ivs ! i))"
      by (simp add: min_def)
  qed
  from p q len pos adv fixed_loop_unbounded[of ts 0 "[]"] show ?thesis by blast
qed

theorem C10_fixed_loop_terminates_witness:
  "0 < clipDuration DEFAULT_TRIM_SETTINGS \<and>
   (\<exists>ivs. fixed_loop (Seconds 95) DEFAULT_TRIM_SETTINGS 0 [] = Some ivs \<and> length ivs \<le> 4)"
proof -
  have c: "0 < clipDuration DEFAULT_TRIM_SETTINGS"
    by (simp add: DEFAULT_TRIM_SETTINGS_def)
  have "nat \<lceil>95 / clipDuration DEFAULT_TRIM_SETTINGS\<rceil> = 4"
    by (simp add: DEFAULT_TRIM_SETTINGS_def)
  with C10_fixed_loop_terminates[OF c, where duration = 95 and plus_eps = eps_sum] c
  show ?thesis by auto
qed

theorem C10_counterexample:
  "0 < clipDuration DEFAULT_TRIM_SETTINGS \<and>
   fixed_loop Unbounded DEFAULT_TRIM_SETTINGS 0 [] = None"
  by (simp add: DEFAULT_TRIM_SETTINGS_def fixed_loop_unbounded)

lemma marker_loop_append:
  "marker_loop g l (xs @ ys) [] = marker_loop g l xs [] @ marker_loop g (last (l # xs)) ys []"
  by (induction xs arbitrary: l) (simp_all add: marker_loop_Cons del: marker_loop.simps(2))

lemma marker_le_collapse:
  assumes g: "mono g"
  shows "c \<le> l \<Longrightarrow> sorted (l # xs) \<Longrightarrow>
         length (marker_loop g l xs []) \<le> length (collapse g c xs)"
proof (induction xs arbitrary: l c)
  case Nil
  show ?case by simp
next
  case (Cons x xs)
  from Cons.prems have lx: "l \<le> x" and s: "sorted (x # xs)" by simp_all
  from monoD[OF g Cons.prems(1)] have gg: "g c \<le> g l" .
  show ?case
  proof (cases "g l < x")
    case True
    with gg have "g c < x" by simp
    with True Cons.IH[of x x, OF _ s] show ?thesis
      by (simp add: marker_loop_Cons del: marker_loop.simps(2))
  next
    case False
    from Cons.prems(1) lx have cx: "c \<le> x" by simp
    from Cons.IH[of x x, OF _ s] Cons.IH[of c x, OF cx s] False show ?thesis
      by (simp add: marker_loop_Cons del: marker_loop.simps(2))
  qed
qed

lemma collapse_remdups_adj:
  assumes infl: "\<forall>x. x \<le> g x"
  shows "collapse g c (remdups_adj xs) = collapse g c xs"
proof (induction xs arbitrary: c rule: remdups_adj.induct)
  case 1
  show ?case by simp
next
  case (2 x)
  show ?case by simp
next
  case (3 x y xs)
  from infl have nx: "\<not> g x < x" by (simp add: not_less)
  show ?case
  proof (cases "x = y")
    case True
    with 3(1)[of c] nx show ?thesis by simp
  next
    case False
    with 3(2)[of c] 3(2)[of x] show ?thesis by simp
  qed
qed

lemma distinct_remdups_adj_sorted:
  "sorted xs \<Longrightarrow> distinct (remdups_adj xs)"
  by (induction xs rule: remdups_adj.induct) (auto simp: remdups_adj_set)

lemma sort_remdups_adj:
  "sort (remdups xs) = remdups_adj (sort xs)"
  by (rule sorted_distinct_set_unique)
     (simp_all add: sorted_remdups_adj distinct_remdups_adj_sorted remdups_adj_set)

lemma collapsed_markers_sort:
  assumes "\<forall>x. x \<le> g x"
  shows "collapsed_markers g ms = collapse g 0 (sort ms)"
  by (simp add: collapsed_markers_def sort_remdups_adj collapse_remdups_adj[OF assms])

lemma well_spaced_butlast:
  "well_spaced g (xs @ [d]) \<Longrightarrow> well_spaced g xs"
proof (induction g xs rule: well_spaced.induct)
  case (1 g a b rest)
  then show ?case by simp
qed simp_all

lemma well_spaced_last:
  "well_spaced g (xs @ [d]) \<Longrightarrow> xs \<noteq> [] \<Longrightarrow> d = last xs \<or> g (last xs) < d"
proof (induction g xs rule: well_spaced.induct)
  case (1 g a b rest)
  then show ?case by simp
qed simp_all

lemma marker_eq_collapse:
  "well_spaced g (c # xs) \<Longrightarrow> length (marker_loop g c xs []) = length (collapse g c xs)"
proof (induction xs arbitrary: c)
  case Nil
  show ?case by simp
next
  case (Cons x xs)
  from Cons.prems have ws: "well_spaced g (x # xs)" and step: "x = c \<or> g c < x" by simp_all
  show ?case
  proof (cases "g c < x")
    case True
    with Cons.IH[OF ws] show ?thesis by (simp add: marker_loop_Cons del: marker_loop.simps(2))
  next
    case False
    with step have "x = c" by simp
    with Cons.IH[OF ws] False show ?thesis by (simp add: marker_loop_Cons del: marker_loop.simps(2))
  qed
qed

lemma sorted_le_last:
  fixes x :: real
  shows "sorted xs \<Longrightarrow> x \<in> set xs \<Longrightarrow> x \<le> last xs"
  by (induction xs) auto


text \<open>
  C6, as amended. In marker mode (markers in [0, duration]) the number of intervals is at
  most the number of sorted unique markers after epsilon-collapsing plus one. When any
  two consecutive boundaries of 0, the sorted markers and the duration are equal or pass
  the test of the loop, it is that number, plus one for the duration unless the duration
  is itself a marker. The rounded sum is taken to grow with its argument and not to be
  below it.
\<close>

theorem C6_marker_interval_count:
  assumes "markers \<noteq> []" and "\<forall>m \<in> set markers. 0 \<le> m \<and> m \<le> duration"
    and "mono plus_eps" and "\<forall>x. x \<le> plus_eps x"
  shows "\<exists>ivs. planIntervals plus_eps markers duration ts = Some ivs \<and>
           length ivs \<le> length (collapsed_markers plus_eps markers) + 1 \<and>
           (well_spaced plus_eps (0 # sort (markers @ [duration])) \<longrightarrow>
              length ivs = length (collapsed_markers plus_eps markers) +
                           (if duration \<in> set markers then 0 else 1))"
proof -
  let ?sm = "sort markers"
  let ?L = "last (0 # ?sm)"
  let ?A = "marker_loop plus_eps 0 ?sm []"
  let ?B = "marker_loop plus_eps ?L [duration] []"
  let ?ivs = "marker_loop plus_eps 0 (sort (markers @ [duration])) []"
  from assms(2) have bs: "sort (markers @ [duration]) = ?sm @ [duration]"
    by (intro sort_snoc_max) simp
  have split: "?ivs = ?A @ ?B"
    unfolding bs by (rule marker_loop_append)
  have p: "planIntervals plus_eps markers duration ts = Some ?ivs"
    using assms(1) by (simp add: planIntervals_def)
  have cm: "collapsed_markers plus_eps markers = collapse plus_eps 0 ?sm"
    using assms(4) by (rule collapsed_markers_sort)
  have lenB: "length ?B = (if plus_eps ?L < duration then 1 else 0)"
    by (simp add: marker_loop_Cons del: marker_loop.simps(2))
  from assms(2) have "sorted (0 # ?sm)" by simp
  from marker_le_collapse[OF assms(3) order_refl this]
  have lenA: "length ?A \<le> length (collapse plus_eps 0 ?sm)" .
  have le: "length ?ivs \<le> length (collapsed_markers plus_eps markers) + 1"
    unfolding split cm using lenA lenB by simp
  have eq: "length ?ivs = length (collapsed_markers plus_eps markers) +
                           (if duration \<in> set markers then 0 else 1)"
    if ws: "well_spaced plus_eps (0 # sort (markers @ [duration]))"
  proof -
    from ws have ws': "well_spaced plus_eps ((0 # ?sm) @ [duration])" by (simp add: bs)
    from well_spaced_butlast[OF ws'] have "well_spaced plus_eps (0 # ?sm)" .
    from marker_eq_collapse[OF this]
    have A: "length ?A = length (collapse plus_eps 0 ?sm)" .
    from well_spaced_last[OF ws'] have step: "duration = ?L \<or> plus_eps ?L < duration" by simp
    from assms(4) have "\<not> plus_eps ?L < ?L" by (simp add: not_less)
    with step have j: "plus_eps ?L < duration \<longleftrightarrow> duration \<noteq> ?L" by auto
    from assms(1) have ne: "?sm \<noteq> []" by (cases markers) auto
    then have L: "?L = last ?sm" by simp
    have "duration = ?L \<longleftrightarrow> duration \<in> set markers"
    proof
      assume "duration = ?L"
      with L last_in_set[OF ne] show "duration \<in> set markers" by simp
    next
      assume d: "duration \<in> set markers"
      then have "duration \<le> last ?sm" by (intro sorted_le_last) simp_all
      moreover from last_in_set[OF ne] assms(2) have "last ?sm \<le> duration" by simp
      ultimately show "duration = ?L" using L by simp
    qed
    with j have "plus_eps ?L < duration \<longleftrightarrow> duration \<notin> set markers" by simp
    with lenB have "length ?B = (if duration \<in> set markers then 0 else 1)" by simp
    with A show ?thesis unfolding split cm by simp
  qed
  from p le eq show ?thesis by blast
qed

theorem C6_marker_interval_count_witness:
  "mono eps_sum \<and> (\<forall>x. x \<le> eps_sum x) \<and>
   well_spaced eps_sum (0 # sort ([0, 10] @ [30])) \<and>
   (\<exists>ivs. planIntervals eps_sum [0, 10] 30 DEFAULT_TRIM_SETTINGS = Some ivs \<and> length ivs = 2) \<and>
   collapsed_markers eps_sum [0, 10] = [10] \<and>
   well_spaced eps_sum (0 # sort ([10, 30] @ [30])) \<and>
   (\<exists>ivs. planIntervals eps_sum [10, 30] 30 DEFAULT_TRIM_SETTINGS = Some ivs \<and> length ivs = 2) \<and>
   collapsed_markers eps_sum [10, 30] = [10, 30]"
proof -
  have m: "mono eps_sum" by (simp add: mono_def eps_sum_def)
  have i: "\<forall>x. x \<le> eps_sum x" by (simp add: eps_sum_def)
  have w1: "well_spaced eps_sum (0 # sort ([0, 10] @ [30]))" by (simp add: eps_sum_def)
  have w2: "well_spaced eps_sum (0 # sort ([10, 30] @ [30]))" by (simp add: eps_sum_def)
  have c1: "collapsed_markers eps_sum [0, 10] = [10]"
    by (simp add: collapsed_markers_def eps_sum_def)
  have c2: "collapsed_markers eps_sum [10, 30] = [10, 30]"
    by (simp add: collapsed_markers_def eps_sum_def)
  from C6_marker_interval_count[where markers = "[0, 10]" and duration = 30
      and plus_eps = eps_sum and ts = DEFAULT_TRIM_SETTINGS, OF _ _ m i] w1 c1
  have 1: "\<exists>ivs. planIntervals eps_sum [0, 10] 30 DEFAULT_TRIM_SETTINGS = Some ivs \<and> length ivs = 2"
    by auto
  from C6_marker_interval_count[where markers = "[10, 30]" and duration = 30
      and plus_eps = eps_sum and ts = DEFAULT_TRIM_SETTINGS, OF _ _ m i] w2 c2
  have 2: "\<exists>ivs. planIntervals eps_sum [10, 30] 30 DEFAULT_TRIM_SETTINGS = Some ivs \<and> length ivs = 2"
    by auto
  from m i w1 w2 c1 c2 1 2 show ?thesis by blast
qed

theorem C6_counterexample:
  "planIntervals eps_sum [3 / 50, 3 / 25, 9 / 50, 6 / 25] 10 DEFAULT_TRIM_SETTINGS =
     Some [\<lparr>iv_start = 6 / 25, iv_end = 10\<rparr>] \<and>
   collapsed_markers eps_sum [3 / 50, 3 / 25, 9 / 50, 6 / 25] = [3 / 25, 6 / 25] \<and>
   collapse eps_sum 0 (sort (remdups [3 / 50, 3 / 25, 9 / 50, 6 / 25]) @ [10]) =
     [3 / 25, 6 / 25, 10]"
  by (simp add: planIntervals_def collapsed_markers_def eps_sum_def)


lemma floor_quotient_small:
  fixes c x :: real
  assumes "0 < c" "0 \<le> x" "x < c"
  shows "\<lfloor>x / c\<rfloor> = 0"
proof -
  from assms have "0 \<le> x / c" "x / c < 1" by simp_all
  then show ?thesis by linarith
qed

lemma floor_quotient_shift:
  fixes c x :: real
  assumes "0 < c"
  shows "\<lfloor>(x + c) / c\<rfloor> = \<lfloor>x / c\<rfloor> + 1"
proof -
  from assms have "(x + c) / c = x / c + 1" by (simp add: field_simps)
  then show ?thesis by simp
qed

lemma fixed_run_discard_remainder:
  assumes c: "0 < clipDuration ts" and dis: "autoFit ts = Discard"
    and thr: "remainderThreshold ts \<le> clipDuration ts"
  shows "fixed_run d ts cur ivs \<Longrightarrow> cur < d \<Longrightarrow>
     (iv_end (last ivs) < d \<longleftrightarrow>
        clipDuration ts \<le> d - cur \<and>
        0 < (d - cur) - clipDuration ts * of_int \<lfloor>(d - cur) / clipDuration ts\<rfloor> \<and>
        (d - cur) - clipDuration ts * of_int \<lfloor>(d - cur) / clipDuration ts\<rfloor>
          < remainderThreshold ts)"
proof (induction rule: fixed_run.induct)
  case (run_done cur)
  then show ?case by simp
next
  case (run_stop cur)
  let ?c = "clipDuration ts"
  let ?x = "d - cur"
  show ?case
  proof (cases "discards_here d ts cur")
    case True
    then have r: "0 < d - min (cur + ?c) d" "d - min (cur + ?c) d < remainderThreshold ts"
      by (simp_all add: discards_here_def Let_def)
    then have lt: "cur + ?c < d" by (simp add: min_def split: if_splits)
    with r have x: "0 < ?x - ?c" "?x - ?c < remainderThreshold ts" by (simp_all add: min_def)
    with thr have "\<lfloor>(?x - ?c) / ?c\<rfloor> = 0"
      by (intro floor_quotient_small[OF c]) simp_all
    with floor_quotient_shift[OF c, of "?x - ?c"] have f: "\<lfloor>?x / ?c\<rfloor> = 1" by simp
    from dis have "next_end d ts cur = min (cur + ?c) d" by (simp add: next_end_def Let_def)
    with lt have "iv_end (last [\<lparr>iv_start = cur, iv_end = next_end d ts cur\<rparr>]) < d"
      by (simp add: min_def)
    moreover from x lt have "?c \<le> ?x \<and> 0 < ?x - ?c * of_int \<lfloor>?x / ?c\<rfloor> \<and>
        ?x - ?c * of_int \<lfloor>?x / ?c\<rfloor> < remainderThreshold ts"
      by (simp add: f)
    ultimately show ?thesis by blast
  next
    case False
    with run_stop.hyps(2) have "d \<le> next_end d ts cur" by (simp add: stops_here_def)
    moreover from dis have ne: "next_end d ts cur = min (cur + ?c) d"
      by (simp add: next_end_def Let_def)
    ultimately have ge: "d \<le> cur + ?c" by (simp add: min_def split: if_splits)
    have "\<not> (?c \<le> ?x \<and> 0 < ?x - ?c * of_int \<lfloor>?x / ?c\<rfloor> \<and>
        ?x - ?c * of_int \<lfloor>?x / ?c\<rfloor> < remainderThreshold ts)"
    proof
      assume a: "?c \<le> ?x \<and> 0 < ?x - ?c * of_int \<lfloor>?x / ?c\<rfloor> \<and>
        ?x - ?c * of_int \<lfloor>?x / ?c\<rfloor> < remainderThreshold ts"
      with ge have e: "?x = ?c" by simp
      with c have "?x / ?c = 1" by simp
      then have "\<lfloor>?x / ?c\<rfloor> = 1" by simp
      then have "?x - ?c * of_int \<lfloor>?x / ?c\<rfloor> = 0" using e by simp
      with a show False by simp
    qed
    moreover from ne ge have "\<not> iv_end (last [\<lparr>iv_start = cur, iv_end = next_end d ts cur\<rparr>]) < d"
      by (simp add: min_def)
    ultimately show ?thesis by blast
  qed
next
  case (run_step cur ivs)
  let ?c = "clipDuration ts"
  let ?x = "d - cur"
  from run_step.hyps(2) have ne: "next_end d ts cur = cur + ?c" and lt: "cur + ?c < d"
    by (rule next_end_continue)+
  from run_step.hyps(2) dis lt have big: "remainderThreshold ts \<le> ?x - ?c"
    by (auto simp: stops_here_def discards_here_def Let_def min_def split: if_splits)
  from fixed_run_empty_iff[OF run_step.hyps(3)] lt ne have nonempty: "ivs \<noteq> []" by simp
  from run_step.IH lt ne
  have IH: "iv_end (last ivs) < d \<longleftrightarrow>
        ?c \<le> ?x - ?c \<and>
        0 < (?x - ?c) - ?c * of_int \<lfloor>(?x - ?c) / ?c\<rfloor> \<and>
        (?x - ?c) - ?c * of_int \<lfloor>(?x - ?c) / ?c\<rfloor> < remainderThreshold ts"
    by (simp add: algebra_simps)
  from floor_quotient_shift[OF c, of "?x - ?c"]
  have sh: "of_int \<lfloor>?x / ?c\<rfloor> = of_int \<lfloor>(?x - ?c) / ?c\<rfloor> + (1::real)" by simp
  have same: "?x - ?c * of_int \<lfloor>?x / ?c\<rfloor> = (?x - ?c) - ?c * of_int \<lfloor>(?x - ?c) / ?c\<rfloor>"
    unfolding sh by (simp add: algebra_simps)
  have "(?c \<le> ?x - ?c \<and>
        0 < (?x - ?c) - ?c * of_int \<lfloor>(?x - ?c) / ?c\<rfloor> \<and>
        (?x - ?c) - ?c * of_int \<lfloor>(?x - ?c) / ?c\<rfloor> < remainderThreshold ts) \<longleftrightarrow>
        (?c \<le> ?x \<and> 0 < ?x - ?c * of_int \<lfloor>?x / ?c\<rfloor> \<and>
        ?x - ?c * of_int \<lfloor>?x / ?c\<rfloor> < remainderThreshold ts)"
  proof (cases "?c \<le> ?x - ?c")
    case True
    with c lt show ?thesis unfolding same by simp
  next
    case False
    with lt have "0 \<le> ?x - ?c" "?x - ?c < ?c" by simp_all
    from floor_quotient_small[OF c this] have "\<lfloor>(?x - ?c) / ?c\<rfloor> = 0" .
    with big False show ?thesis unfolding same by simp
  qed
  with IH nonempty show ?case by simp
qed

text \<open>
  C4. In fixed-interval discard mode, with a positive duration and a positive clip
  duration: no interval ends after the duration; every interval is emitted as the loop
  computed it (\<open>min (start + clipDuration) duration\<close>) and none reaches beyond the last one;
  no interval after the first is a remainder shorter than the threshold that ends at the
  duration; and the last interval ends strictly before the duration exactly when the
  remainder left after it is strictly positive and strictly below the threshold. When the
  threshold is at most the clip duration, that remainder is the remainder of the duration
  modulo the clip duration, and the tail is dropped exactly when the duration holds at
  least one whole clip and this remainder lies strictly between 0 and the threshold.
\<close>

theorem C4_discard_mode:
  assumes "0 < duration" and "0 < clipDuration ts" and "autoFit ts = Discard"
  shows "\<exists>ivs. planIntervals plus_eps [] duration ts = Some ivs \<and> ivs \<noteq> [] \<and>
           (\<forall>iv \<in> set ivs. iv_end iv \<le> duration \<and>
               iv_end iv = min (iv_start iv + clipDuration ts) duration \<and>
               iv_end iv \<le> iv_end (last ivs)) \<and>
           (\<forall>i. 0 < i \<and> i < length ivs \<and> iv_end (ivs ! i) = duration \<longrightarrow>
               remainderThreshold ts \<le> iv_end (ivs ! i) - iv_start (ivs ! i)) \<and>
           (iv_end (last ivs) < duration \<longleftrightarrow>
               0 < duration - iv_end (last ivs) \<and>
               duration - iv_end (last ivs) < remainderThreshold ts) \<and>
           (remainderThreshold ts \<le> clipDuration ts \<longrightarrow>
              (iv_end (last ivs) < duration \<longleftrightarrow>
                 clipDuration ts \<le> duration \<and>
                 0 < duration - clipDuration ts * of_int \<lfloor>duration / clipDuration ts\<rfloor> \<and>
                 duration - clipDuration ts * of_int \<lfloor>duration / clipDuration ts\<rfloor>
                   < remainderThreshold ts))"
proof -
  from planIntervals_fixed[OF assms(2), of plus_eps duration]
  obtain ivs where p: "planIntervals plus_eps [] duration ts = Some ivs"
    and run: "fixed_run duration ts 0 ivs"
    by blast
  from fixed_run_empty_iff[OF run] assms(1) have ne: "ivs \<noteq> []" by simp
  have a: "\<forall>iv \<in> set ivs. iv_end iv \<le> duration \<and>
               iv_end iv = min (iv_start iv + clipDuration ts) duration \<and>
               iv_end iv \<le> iv_end (last ivs)"
    using fixed_run_bounds[OF assms(2) run] fixed_run_discard_end[OF run assms(3)]
      fixed_run_ends_le_last[OF assms(2) run] by blast
  have b: "\<forall>i. 0 < i \<and> i < length ivs \<and> iv_end (ivs ! i) = duration \<longrightarrow>
               remainderThreshold ts \<le> iv_end (ivs ! i) - iv_start (ivs ! i)"
    using fixed_run_discard_tail[OF assms(2,3) run] .
  have c: "iv_end (last ivs) < duration \<longleftrightarrow>
               0 < duration - iv_end (last ivs) \<and>
               duration - iv_end (last ivs) < remainderThreshold ts"
    using fixed_run_discard_last[OF assms(2,3) run ne] by auto
  have d: "iv_end (last ivs) < duration \<longleftrightarrow>
                 clipDuration ts \<le> duration \<and>
                 0 < duration - clipDuration ts * of_int \<lfloor>duration / clipDuration ts\<rfloor> \<and>
                 duration - clipDuration ts * of_int \<lfloor>duration / clipDuration ts\<rfloor>
                   < remainderThreshold ts"
    if "remainderThreshold ts \<le> clipDuration ts"
    using fixed_run_discard_remainder[OF assms(2,3) that run assms(1)] by simp
  from p ne a b c d show ?thesis by blast
qed

theorem C4_discard_mode_witness:
  "(0::real) < 62 \<and> 0 < clipDuration (DEFAULT_TRIM_SETTINGS\<lparr>autoFit := Discard\<rparr>) \<and>
   autoFit (DEFAULT_TRIM_SETTINGS\<lparr>autoFit := Discard\<rparr>) = Discard \<and>
   (\<exists>ivs. planIntervals eps_sum [] 62 (DEFAULT_TRIM_SETTINGS\<lparr>autoFit := Discard\<rparr>) = Some ivs \<and>
      ivs \<noteq> [] \<and> iv_end (last ivs) = 60 \<and> 62 - iv_end (last ivs) < 5)"
proof -
  have e: "planIntervals eps_sum [] 62 (DEFAULT_TRIM_SETTINGS\<lparr>autoFit := Discard\<rparr>) =
        Some [\<lparr>iv_start = 0, iv_end = 30\<rparr>, \<lparr>iv_start = 30, iv_end = 60\<rparr>]"
    by (simp add: planIntervals_def fixed_loop.simps DEFAULT_TRIM_SETTINGS_def)
  from C4_discard_mode[where duration = 62 and plus_eps = eps_sum
      and ts = "DEFAULT_TRIM_SETTINGS\<lparr>autoFit := Discard\<rparr>"]
  show ?thesis unfolding e by (simp add: DEFAULT_TRIM_SETTINGS_def)
qed

section \<open>The job driver\<close>















lemma buildArgs_copy:
  assumes "mode ts = Copy \<and> resize ps = ResizeNone \<and> \<not> normalize ps \<and> watermark ps = []"
  shows "buildArgs f ts ps i iv =
           [''-ss'', toFixed3 (iv_start iv), ''-i'', ''input_'' @ f, ''-t'',
            toFixed3 (iv_end iv - iv_start iv), ''-c'', ''copy'',
            generateClipName f (template ts) i (iv_start iv) (iv_end iv)]"
  using assms by (simp add: buildArgs_def Let_def)



section \<open>Claims about argument construction and the driver\<close>








section \<open>Evaluating the string functions\<close>

lemma nat_toString_digit: "n < 10 \<Longrightarrow> nat_toString n = [digit_char n]"
  by (subst nat_toString.simps) simp

lemma nat_toString_more:
  "10 \<le> n \<Longrightarrow> nat_toString n = nat_toString (n div 10) @ [digit_char (n mod 10)]"
  by (subst nat_toString.simps) (simp add: digit_char_def)

lemma js_replace_from_found:
  "prefix pat s \<Longrightarrow>
   js_replace_from pat rep pre s =
     pre @ getSubstitution pat pre (drop (length pat) s) rep @ drop (length pat) s"
  by (simp add: js_replace_from.simps)

lemma js_replace_from_next:
  "\<not> prefix pat (c # cs) \<Longrightarrow>
   js_replace_from pat rep pre (c # cs) = js_replace_from pat rep (pre @ [c]) cs"
  by (subst js_replace_from.simps) simp

lemma js_replace_from_end:
  "\<not> prefix pat [] \<Longrightarrow> js_replace_from pat rep pre [] = pre"
  by (subst js_replace_from.simps) simp

lemma replicate_numeral: "replicate (numeral k) x = x # replicate (pred_numeral k) x"
  by (simp add: numeral_eq_Suc)

lemmas eval_strings = replicate_numeral
  nat_toString_digit nat_toString_more digit_char_def int_toString_def padStart_def
  toFixed3_def js_replace_def js_replace_from_found js_replace_from_next js_replace_from_end
  baseName_def generateClipName_def Let_def

text \<open>
  C2. The check at the top of the loop is \<open>!shouldProcessRef.current && i > 0\<close>, so the
  first iteration never looks at the flag. Here cancellation is requested while the
  input file is written, before the loop: the first interval is cut all the same (two
  engine calls, one clip), and the cancellation only stops the second iteration.
\<close>

theorem C2_cancel_before_first_interval:
  "processVideo plus_eps (Some ''movie.mp4'') True [] 65 DEFAULT_TRIM_SETTINGS PREMIUM_SETTINGS
     \<lparr>writeFile_ok = True, cancel_in_setup = True\<rparr>
     (\<lambda>i. \<lparr>main_result = Some ''blob:clip'', thumb_result = Some ''blob:thumb'',
            cancel_clicked = False\<rparr>)
     initial_state =
   Some \<lparr>shouldProcess = False,
         clips = [\<lparr>clip_url = ''blob:clip'', thumbUrl = ''blob:thumb'',
                   clip_name = ''movie_part1_0-30.mp4'', clip_index = 0,
                   startTime = 0, endTime = 30, clip_duration = 30\<rparr>],
         message = MsgCancelled, isProcessing = False,
         execLog = [''-ss'', ''0.000'', ''-i'', ''input_movie.mp4'', ''-t'', ''30.000'',
                    ''-c'', ''copy'', ''movie_part1_0-30.mp4''] #
                   [''-ss'', ''0.000'', ''-i'', ''input_movie.mp4'', ''-vframes'', ''1'',
                    ''-q:v'', ''2'', ''thumb_0.jpg''] # []\<rparr>"
proof -
  have p: "planIntervals plus_eps [] 65 DEFAULT_TRIM_SETTINGS =
     Some [\<lparr>iv_start = 0, iv_end = 30\<rparr>, \<lparr>iv_start = 30, iv_end = 60\<rparr>, \<lparr>iv_start = 60, iv_end = 65\<rparr>]"
    by (simp add: planIntervals_def fixed_loop.simps DEFAULT_TRIM_SETTINGS_def)
  have n: "generateClipName ''movie.mp4'' (template DEFAULT_TRIM_SETTINGS) 0 0 30 =
             ''movie_part1_0-30.mp4''"
    by (simp add: DEFAULT_TRIM_SETTINGS_def eval_strings)
  have t: "toFixed3 0 = ''0.000''" "toFixed3 30 = ''30.000''"
    by (simp_all add: eval_strings)
  have b: "buildArgs ''movie.mp4'' DEFAULT_TRIM_SETTINGS PREMIUM_SETTINGS 0
             \<lparr>iv_start = 0, iv_end = 30\<rparr> =
           [''-ss'', ''0.000'', ''-i'', ''input_movie.mp4'', ''-t'', ''30.000'',
            ''-c'', ''copy'', ''movie_part1_0-30.mp4'']"
    by (subst buildArgs_copy) (simp_all add: n t, simp_all add: DEFAULT_TRIM_SETTINGS_def PREMIUM_SETTINGS_def)
  have s: "nat_toString 0 = ''0''" by (simp add: eval_strings)
  show ?thesis
    unfolding processVideo_def p
    by (simp add: Let_def n b t s cancelProcessing_def initial_state_def finally_block_def)
qed

text \<open>
  C8, as amended. For a finite duration and a positive clip duration, fixed-interval mode
  yields a non-empty sequence exactly when the duration is above 0; for the duration
  \<open>+Infinity\<close> the fixed-interval loop never returns and there is no sequence at all.
  Marker mode yields a non-empty sequence whenever the duration exceeds the value
  reached from 0 by adding 0.1, as the code adds it, once for every marker and once more;
  it yields an empty one whenever the markers lie in [0, duration] and the duration is
  at most the sum 0 + 0.1 of the code. An empty sequence ends the job with the message
  that no clip can be made, without a clip and without any call of \<open>ffmpeg.exec\<close>; by
  then \<open>ffmpeg.writeFile\<close> has stored the input, and when that call fails the job ends
  with the error message instead.
\<close>

theorem C8_empty_plan:
  assumes "markers = [] \<longrightarrow> 0 < clipDuration ts" and "mono plus_eps"
  shows "(\<exists>ivs. planIntervals plus_eps markers duration ts = Some ivs \<and>
     (markers = [] \<longrightarrow> (ivs = [] \<longleftrightarrow> duration \<le> 0)) \<and>
     (markers \<noteq> [] \<and> (plus_eps ^^ (length markers + 1)) 0 < duration \<longrightarrow> ivs \<noteq> []) \<and>
     (markers \<noteq> [] \<and> (\<forall>m \<in> set markers. 0 \<le> m \<and> m \<le> duration) \<and>
        duration \<le> plus_eps 0 \<longrightarrow> ivs = []) \<and>
     (ivs = [] \<longrightarrow>
        (\<exists>st'. processVideo plus_eps (Some f) True markers duration ts ps prep env st = Some st' \<and>
               message st' = (if writeFile_ok prep then MsgNoClips else MsgError) \<and>
               clips st' = [] \<and> execLog st' = execLog st \<and> \<not> isProcessing st'))) \<and>
     fixed_loop Unbounded ts 0 [] = None"
proof -
  have drv: "\<exists>st'. processVideo plus_eps (Some f) True markers duration ts ps prep env st = Some st' \<and>
               message st' = (if writeFile_ok prep then MsgNoClips else MsgError) \<and>
               clips st' = [] \<and> execLog st' = execLog st \<and> \<not> isProcessing st'"
    if "planIntervals plus_eps markers duration ts = Some []"
    using that by (simp add: processVideo_def Let_def finally_block_def cancelProcessing_def)
  have fin: "\<exists>ivs. planIntervals plus_eps markers duration ts = Some ivs \<and>
     (markers = [] \<longrightarrow> (ivs = [] \<longleftrightarrow> duration \<le> 0)) \<and>
     (markers \<noteq> [] \<and> (plus_eps ^^ (length markers + 1)) 0 < duration \<longrightarrow> ivs \<noteq> []) \<and>
     (markers \<noteq> [] \<and> (\<forall>m \<in> set markers. 0 \<le> m \<and> m \<le> duration) \<and>
        duration \<le> plus_eps 0 \<longrightarrow> ivs = []) \<and>
     (ivs = [] \<longrightarrow>
        (\<exists>st'. processVideo plus_eps (Some f) True markers duration ts ps prep env st = Some st' \<and>
               message st' = (if writeFile_ok prep then MsgNoClips else MsgError) \<and>
               clips st' = [] \<and> execLog st' = execLog st \<and> \<not> isProcessing st'))"
  proof (cases "markers = []")
    case True
    with assms(1) planIntervals_fixed[of ts plus_eps duration]
    obtain ivs where p: "planIntervals plus_eps markers duration ts = Some ivs"
      and run: "fixed_run duration ts 0 ivs"
      by auto
    from fixed_run_empty_iff[OF run] have "ivs = [] \<longleftrightarrow> duration \<le> 0" .
    with p True drv show ?thesis by auto
  next
    case False
    let ?bs = "sort (markers @ [duration])"
    let ?ivs = "marker_loop plus_eps 0 ?bs []"
    from False have p: "planIntervals plus_eps markers duration ts = Some ?ivs"
      by (simp add: planIntervals_def)
    have big: "?ivs \<noteq> []" if "(plus_eps ^^ (length markers + 1)) 0 < duration"
    proof
      assume e: "?ivs = []"
      have ne: "?bs \<noteq> []" by (metis Nil_is_append_conv not_Cons_self2 set_empty2 set_sort)
      have "duration \<le> last ?bs" by (intro sorted_le_last) simp_all
      also from marker_loop_empty_bound[OF assms(2) e ne]
      have "last ?bs \<le> (plus_eps ^^ length ?bs) 0" .
      finally show False using that by simp
    qed
    have small: "?ivs = []"
      if "\<forall>m \<in> set markers. 0 \<le> m \<and> m \<le> duration" and "duration \<le> plus_eps 0"
    proof (rule marker_loop_small[OF assms(2)])
      show "(0::real) \<le> 0" by simp
      show "\<forall>x \<in> set ?bs. 0 \<le> x \<and> x \<le> plus_eps 0"
      proof
        fix x assume "x \<in> set ?bs"
        then have "x \<in> set markers \<or> x = duration" by auto
        moreover from False that(1) have "0 \<le> duration"
          by (cases markers) (auto intro: order_trans)
        ultimately show "0 \<le> x \<and> x \<le> plus_eps 0" using that by (auto intro: order_trans)
      qed
    qed
    from p False big small drv show ?thesis by auto
  qed
  with fixed_loop_unbounded[of ts 0 "[]"] show ?thesis by blast
qed

theorem C8_empty_plan_witness:
  "0 < clipDuration DEFAULT_TRIM_SETTINGS \<and> mono eps_sum \<and>
   (\<exists>ivs. planIntervals eps_sum [] 95 DEFAULT_TRIM_SETTINGS = Some ivs \<and> ivs \<noteq> []) \<and>
   (eps_sum ^^ (length [10, 20 :: real] + 1)) 0 < 30 \<and>
   (\<exists>ivs. planIntervals eps_sum [10, 20] 30 DEFAULT_TRIM_SETTINGS = Some ivs \<and> ivs \<noteq> []) \<and>
   (1 / 16 :: real) \<le> eps_sum 0 \<and>
   (\<exists>st'. processVideo eps_sum (Some ''movie.mp4'') True [1 / 32] (1 / 16)
             DEFAULT_TRIM_SETTINGS PREMIUM_SETTINGS
             \<lparr>writeFile_ok = True, cancel_in_setup = False\<rparr>
             (\<lambda>i. \<lparr>main_result = None, thumb_result = None, cancel_clicked = False\<rparr>)
             initial_state = Some st' \<and>
          message st' = MsgNoClips \<and> execLog st' = [])"
proof -
  let ?env = "\<lambda>i::nat. \<lparr>main_result = None, thumb_result = None, cancel_clicked = False\<rparr>"
  let ?prep = "\<lparr>writeFile_ok = True, cancel_in_setup = False\<rparr>"
  have m: "mono eps_sum" by (simp add: mono_def eps_sum_def)
  have c: "0 < clipDuration DEFAULT_TRIM_SETTINGS" by (simp add: DEFAULT_TRIM_SETTINGS_def)
  note inst = C8_empty_plan[where ts = DEFAULT_TRIM_SETTINGS and f = "''movie.mp4''"
      and plus_eps = eps_sum and ps = PREMIUM_SETTINGS and prep = ?prep and env = ?env
      and st = initial_state, OF _ m]
  have b: "(eps_sum ^^ (length [10, 20 :: real] + 1)) 0 < 30"
    by (simp add: eps_sum_def numeral_3_eq_3)
  have s: "(1 / 16 :: real) \<le> eps_sum 0" by (simp add: eps_sum_def)
  have 1: "\<exists>ivs. planIntervals eps_sum [] 95 DEFAULT_TRIM_SETTINGS = Some ivs \<and> ivs \<noteq> []"
    using inst[of "[]" 95] c by auto
  have 2: "\<exists>ivs. planIntervals eps_sum [10, 20] 30 DEFAULT_TRIM_SETTINGS = Some ivs \<and> ivs \<noteq> []"
    using inst[of "[10, 20]" 30] b by auto
  have 3: "\<exists>st'. processVideo eps_sum (Some ''movie.mp4'') True [1 / 32] (1 / 16)
             DEFAULT_TRIM_SETTINGS PREMIUM_SETTINGS ?prep ?env initial_state = Some st' \<and>
          message st' = MsgNoClips \<and> execLog st' = []"
    using inst[of "[1 / 32]" "1 / 16"] s by (auto simp: initial_state_def)
  from c m 1 b 2 s 3 show ?thesis by blast
qed

theorem C8_counterexample:
  "(0::real) < 1 / 10 \<and> (0::real) \<le> 1 / 20 \<and> (1 / 20 :: real) \<le> 1 / 10 \<and>
   planIntervals eps_sum [1 / 20] (1 / 10) DEFAULT_TRIM_SETTINGS = Some []"
  by (simp add: planIntervals_def eps_sum_def)

section \<open>Decimal strings\<close>

lemma digit_val_digit_char: "digit_val (digit_char n) = n mod 10"
proof -
  have d: "distinct ''0123456789''" by simp
  have l: "n mod 10 < length ''0123456789''" by simp
  have "takeWhile (\<lambda>d. d \<noteq> ''0123456789'' ! (n mod 10)) ''0123456789'' =
        take (n mod 10) ''0123456789''"
  proof (rule takeWhile_eq_take_P_nth)
    fix i assume "i < n mod 10" "i < length ''0123456789''"
    with d l show "''0123456789'' ! i \<noteq> ''0123456789'' ! (n mod 10)"
      by (simp only: nth_eq_iff_index_eq)
  qed simp
  then show ?thesis using l by (simp only: digit_val_def digit_char_def length_take min_def) simp
qed

lemma nat_of_digits_snoc:
  "nat_of_digits (s @ [c]) = 10 * nat_of_digits s + digit_val c"
  by (simp add: nat_of_digits_def)

lemma nat_of_digits_nat_toString: "nat_of_digits (nat_toString n) = n"
proof (induction n rule: nat_toString.induct)
  case (1 n)
  show ?case
  proof (cases "n < 10")
    case True
    then show ?thesis
      by (simp add: nat_toString_digit nat_of_digits_def digit_val_digit_char)
  next
    case False
    with 1 show ?thesis
      by (simp add: nat_toString_more nat_of_digits_snoc digit_val_digit_char)
  qed
qed

lemma nat_toString_inject: "nat_toString m = nat_toString n \<Longrightarrow> m = n"
  by (metis nat_of_digits_nat_toString)

lemma nat_of_digits_zeros: "nat_of_digits (replicate k (CHR ''0'') @ s) = nat_of_digits s"
proof -
  have "digit_val (CHR ''0'') = 0" by (simp add: digit_val_def)
  then have "foldl (\<lambda>a c. 10 * a + digit_val c) 0 (replicate k (CHR ''0'')) = 0"
    by (induction k) simp_all
  then show ?thesis by (simp add: nat_of_digits_def)
qed

lemma padStart_inject:
  "padStart k (CHR ''0'') (nat_toString m) = padStart k (CHR ''0'') (nat_toString n) \<Longrightarrow> m = n"
  by (metis padStart_def nat_of_digits_zeros nat_of_digits_nat_toString)

lemma nat_toString_nonempty: "nat_toString n \<noteq> []"
  by (subst nat_toString.simps) simp

lemma digit_char_digit: "digit_char n \<in> set ''0123456789''"
  unfolding digit_char_def by (rule nth_mem) simp

lemma nat_toString_digits: "set (nat_toString n) \<subseteq> set ''0123456789''"
proof (induction n rule: nat_toString.induct)
  case (1 n)
  show ?case
  proof (cases "n < 10")
    case True
    then show ?thesis using digit_char_digit[of n] by (simp add: nat_toString_digit)
  next
    case False
    with 1 digit_char_digit[of "n mod 10"] show ?thesis
      by (simp add: nat_toString_more)
  qed
qed

lemma length_nat_toString_mono:
  "m \<le> n \<Longrightarrow> length (nat_toString m) \<le> length (nat_toString n)"
proof (induction n arbitrary: m rule: nat_toString.induct)
  case (1 n)
  show ?case
  proof (cases "n < 10")
    case True
    with 1(2) show ?thesis by (simp add: nat_toString_digit)
  next
    case False
    show ?thesis
    proof (cases "m < 10")
      case True
      have "1 \<le> length (nat_toString n)"
        using nat_toString_nonempty[of n] by (cases "nat_toString n") simp_all
      with True show ?thesis by (simp add: nat_toString_digit)
    next
      case m: False
      from 1(2) have "m div 10 \<le> n div 10" by (rule div_le_mono)
      from False have "10 \<le> n" by simp
      from 1(1)[OF this \<open>m div 10 \<le> n div 10\<close>] False m show ?thesis
        by (simp add: nat_toString_more)
    qed
  qed
qed

section \<open>Templates with slots\<close>

lemma inst_append: "inst \<rho> (xs @ ys) = inst \<rho> xs @ inst \<rho> ys"
  by (induction \<rho> xs rule: inst.induct) simp_all

lemma inst_chars: "inst \<rho> (map Ch s) = s"
  by (induction s) simp_all

lemma getSubstitution_plain:
  "CHR ''$'' \<notin> set rep \<Longrightarrow> getSubstitution m pre post rep = rep"
  by (induction m pre post rep rule: getSubstitution.induct) auto

lemma prefix_inst:
  assumes "\<forall>h. \<rho> h \<noteq> [] \<and> set (\<rho> h) \<inter> set pat = {}"
  shows "prefix pat (inst \<rho> s) \<longleftrightarrow> prefix (map Ch pat) s"
  using assms
proof (induction s arbitrary: pat)
  case Nil
  show ?case by simp
next
  case (Cons x xs)
  show ?case
  proof (cases pat)
    case Nil
    then show ?thesis by simp
  next
    case (Cons t ts)
    from Cons.prems Cons have d: "\<forall>h. \<rho> h \<noteq> [] \<and> set (\<rho> h) \<inter> set ts = {}" by auto
    show ?thesis
    proof (cases x)
      case (Ch c)
      with Cons Cons.IH[OF d] show ?thesis by simp
    next
      case (Hole h)
      from Cons.prems obtain y ys where y: "\<rho> h = y # ys" by (cases "\<rho> h") auto
      from Cons.prems have "set (\<rho> h) \<inter> set pat = {}" by blast
      with Cons y have "t \<noteq> y" by auto
      with Hole Cons y show ?thesis by simp
    qed
  qed
qed

lemma js_replace_from_skip:
  assumes "pat \<noteq> []" and "set v \<inter> set pat = {}"
  shows "js_replace_from pat rep pre (v @ rest) = js_replace_from pat rep (pre @ v) rest"
  using assms(2)
proof (induction v arbitrary: pre)
  case Nil
  show ?case by simp
next
  case (Cons y ys)
  from assms(1) obtain t ts where t: "pat = t # ts" by (cases pat) auto
  with Cons.prems have "t \<noteq> y" by auto
  with t have "\<not> prefix pat (y # ys @ rest)" by simp
  then have "js_replace_from pat rep pre ((y # ys) @ rest) =
             js_replace_from pat rep (pre @ [y]) (ys @ rest)"
    by (simp add: js_replace_from_next)
  also have "\<dots> = js_replace_from pat rep ((pre @ [y]) @ ys) rest"
    using Cons.prems by (intro Cons.IH) auto
  finally show ?case by simp
qed

lemma js_replace_from_inst:
  assumes ne: "pat \<noteq> []"
    and num: "\<forall>h. \<rho> h \<noteq> [] \<and> set (\<rho> h) \<inter> set pat = {}"
    and plain: "CHR ''$'' \<notin> set (\<rho> k)"
  shows "js_replace_from pat (\<rho> k) (inst \<rho> pre) (inst \<rho> s) = inst \<rho> (fill_from pat k pre s)"
proof (induction s arbitrary: pre)
  case Nil
  from ne show ?case by (simp add: js_replace_from_end)
next
  case (Cons x xs)
  show ?case
  proof (cases "prefix (map Ch pat) (x # xs)")
    case True
    then obtain rest where r: "x # xs = map Ch pat @ rest" by (auto simp: prefix_def)
    from True have p: "prefix pat (inst \<rho> (x # xs))"
      using prefix_inst[OF num] by simp
    have i: "inst \<rho> (x # xs) = pat @ inst \<rho> rest"
      by (simp only: r inst_append inst_chars)
    have "js_replace_from pat (\<rho> k) (inst \<rho> pre) (inst \<rho> (x # xs)) =
          inst \<rho> pre @ \<rho> k @ inst \<rho> rest"
      using p by (simp add: js_replace_from_found getSubstitution_plain[OF plain] i)
    moreover have "drop (length pat) (x # xs) = rest"
      by (simp only: r) simp
    with True have "fill_from pat k pre (x # xs) = pre @ [Hole k] @ rest"
      by (simp only: fill_from.simps if_True)
    ultimately show ?thesis by (simp add: inst_append)
  next
    case False
    then have np: "\<not> prefix pat (inst \<rho> (x # xs))"
      using prefix_inst[OF num] by simp
    show ?thesis
    proof (cases x)
      case (Ch c)
      with np have "js_replace_from pat (\<rho> k) (inst \<rho> pre) (inst \<rho> (x # xs)) =
          js_replace_from pat (\<rho> k) (inst \<rho> pre @ [c]) (inst \<rho> xs)"
        by (simp add: js_replace_from_next)
      also have "\<dots> = inst \<rho> (fill_from pat k (pre @ [Ch c]) xs)"
        using Cons.IH[of "pre @ [Ch c]"] by (simp add: inst_append)
      finally show ?thesis using False Ch by simp
    next
      case (Hole h)
      from num have "set (\<rho> h) \<inter> set pat = {}" by simp
      from js_replace_from_skip[OF ne this]
      have "js_replace_from pat (\<rho> k) (inst \<rho> pre) (inst \<rho> (x # xs)) =
          js_replace_from pat (\<rho> k) (inst \<rho> pre @ \<rho> h) (inst \<rho> xs)"
        using Hole by simp
      also have "\<dots> = inst \<rho> (fill_from pat k (pre @ [Hole h]) xs)"
        using Cons.IH[of "pre @ [Hole h]"] by (simp add: inst_append)
      finally show ?thesis using False Hole by simp
    qed
  qed
qed

lemma js_replace_inst:
  assumes "pat \<noteq> []"
    and "\<forall>h. \<rho> h \<noteq> [] \<and> set (\<rho> h) \<inter> set pat = {}"
    and "CHR ''$'' \<notin> set (\<rho> k)"
  shows "js_replace pat (\<rho> k) (inst \<rho> s) = inst \<rho> (fill pat k s)"
  using js_replace_from_inst[OF assms, of "[]" s] by (simp add: js_replace_def fill_def)

lemma fill_from_cases:
  "(\<not> sublist (map Ch pat) s \<and> fill_from pat h pre s = pre @ s) \<or>
   (\<exists>p q. s = p @ map Ch pat @ q \<and> fill_from pat h pre s = pre @ p @ [Hole h] @ q)"
proof (induction s arbitrary: pre)
  case Nil
  show ?case by (cases pat) auto
next
  case (Cons x xs)
  show ?case
  proof (cases "prefix (map Ch pat) (x # xs)")
    case True
    then obtain q where q: "x # xs = map Ch pat @ q" by (auto simp: prefix_def)
    then have "drop (length pat) (x # xs) = q" by (simp only: q) simp
    with True have "fill_from pat h pre (x # xs) = pre @ [] @ [Hole h] @ q"
      by (simp only: fill_from.simps if_True append_Nil)
    with q show ?thesis by (metis append_Nil)
  next
    case False
    then have f: "fill_from pat h pre (x # xs) = fill_from pat h (pre @ [x]) xs" by simp
    from Cons.IH[of "pre @ [x]"] show ?thesis
    proof
      assume "\<not> sublist (map Ch pat) xs \<and> fill_from pat h (pre @ [x]) xs = (pre @ [x]) @ xs"
      with False f show ?thesis by (simp add: sublist_Cons_right)
    next
      assume "\<exists>p q. xs = p @ map Ch pat @ q \<and>
                fill_from pat h (pre @ [x]) xs = (pre @ [x]) @ p @ [Hole h] @ q"
      then obtain p q where "xs = p @ map Ch pat @ q"
        and "fill_from pat h (pre @ [x]) xs = (pre @ [x]) @ p @ [Hole h] @ q"
        by blast
      then have "x # xs = (x # p) @ map Ch pat @ q \<and>
                 fill_from pat h pre (x # xs) = pre @ (x # p) @ [Hole h] @ q"
        using f by simp
      then show ?thesis by blast
    qed
  qed
qed

lemma fill_cases:
  "(\<not> sublist (map Ch pat) s \<and> fill pat h s = s) \<or>
   (\<exists>p q. s = p @ map Ch pat @ q \<and> fill pat h s = p @ [Hole h] @ q)"
  using fill_from_cases[of pat s h "[]"] by (simp add: fill_def)

lemma js_replace_from_cases:
  "js_replace_from pat rep pre s = pre @ s \<or>
   (\<exists>p q r. s = p @ pat @ q \<and> js_replace_from pat rep pre s = pre @ p @ r @ q)"
proof (induction s arbitrary: pre)
  case Nil
  show ?case
  proof (cases "pat = []")
    case True
    then have "js_replace_from pat rep pre [] = pre @ [] @ getSubstitution pat pre [] rep @ []"
      by (simp add: js_replace_from_found)
    with True show ?thesis by (metis append_Nil)
  next
    case False
    then show ?thesis by (simp add: js_replace_from_end)
  qed
next
  case (Cons x xs)
  show ?case
  proof (cases "prefix pat (x # xs)")
    case True
    then obtain q where q: "x # xs = pat @ q" by (auto simp: prefix_def)
    then have "drop (length pat) (x # xs) = q" by (simp only: q) simp
    with True have "js_replace_from pat rep pre (x # xs) =
        pre @ [] @ getSubstitution pat pre q rep @ q"
      by (simp add: js_replace_from_found)
    with q show ?thesis by (metis append_Nil)
  next
    case False
    then have f: "js_replace_from pat rep pre (x # xs) = js_replace_from pat rep (pre @ [x]) xs"
      by (simp add: js_replace_from_next)
    from Cons.IH[of "pre @ [x]"] show ?thesis
    proof
      assume "js_replace_from pat rep (pre @ [x]) xs = (pre @ [x]) @ xs"
      with f show ?thesis by simp
    next
      assume "\<exists>p q r. xs = p @ pat @ q \<and>
                js_replace_from pat rep (pre @ [x]) xs = (pre @ [x]) @ p @ r @ q"
      then obtain p q r where "xs = p @ pat @ q"
        and "js_replace_from pat rep (pre @ [x]) xs = (pre @ [x]) @ p @ r @ q"
        by blast
      then have "x # xs = (x # p) @ pat @ q \<and>
                 js_replace_from pat rep pre (x # xs) = pre @ (x # p) @ r @ q"
        using f by simp
      then show ?thesis by blast
    qed
  qed
qed

lemma js_replace_cases:
  "js_replace pat rep s = s \<or>
   (\<exists>p q r. s = p @ pat @ q \<and> js_replace pat rep s = p @ r @ q)"
  using js_replace_from_cases[of pat rep "[]" s] by (simp add: js_replace_def)

text \<open>
  Two tokens that cannot overlap: when the first occurrence of one is replaced, an
  occurrence of the other stays.
\<close>

lemma sublist_survives:
  assumes s: "p @ (x # xs) @ q = a @ (y # ys) @ b"
    and x: "x \<notin> set ys" and y: "y \<notin> set xs"
    and nx: "\<not> prefix (x # xs) (y # ys)" and ny: "\<not> prefix (y # ys) (x # xs)"
  shows "sublist (y # ys) p \<or> sublist (y # ys) q"
proof -
  from s have "p @ ((x # xs) @ q) = a @ ((y # ys) @ b)" by simp
  then obtain us where
    "(p = a @ us \<and> us @ (x # xs) @ q = (y # ys) @ b) \<or>
     (p @ us = a \<and> (x # xs) @ q = us @ (y # ys) @ b)"
    unfolding append_eq_append_conv2 by blast
  then show ?thesis
  proof
    assume c: "p = a @ us \<and> us @ (x # xs) @ q = (y # ys) @ b"
    then obtain vs where
      "(us = (y # ys) @ vs \<and> vs @ (x # xs) @ q = b) \<or>
       (us @ vs = y # ys \<and> (x # xs) @ q = vs @ b)"
      unfolding append_eq_append_conv2 by blast
    then show ?thesis
    proof
      assume "us = (y # ys) @ vs \<and> vs @ (x # xs) @ q = b"
      with c have "p = a @ (y # ys) @ vs" by simp
      then show ?thesis unfolding sublist_def by blast
    next
      assume d: "us @ vs = y # ys \<and> (x # xs) @ q = vs @ b"
      show ?thesis
      proof (cases us)
        case Nil
        with d have "(x # xs) @ q = (y # ys) @ b" by simp
        then have "prefix (x # xs) (y # ys) \<or> prefix (y # ys) (x # xs)"
          by (metis append_eq_append_conv2 prefixI)
        with nx ny show ?thesis by blast
      next
        case (Cons u us')
        with d have ys: "ys = us' @ vs" by simp
        show ?thesis
        proof (cases vs)
          case Nil
          with d c have "p = a @ (y # ys) @ []" by simp
          then show ?thesis unfolding sublist_def by blast
        next
          case (Cons v vs')
          with d have "v = x" by simp
          with Cons ys x show ?thesis by simp
        qed
      qed
    qed
  next
    assume c: "p @ us = a \<and> (x # xs) @ q = us @ (y # ys) @ b"
    then obtain vs where
      "(x # xs = us @ vs \<and> vs @ q = (y # ys) @ b) \<or>
       ((x # xs) @ vs = us \<and> q = vs @ (y # ys) @ b)"
      unfolding append_eq_append_conv2 by blast
    then show ?thesis
    proof
      assume d: "x # xs = us @ vs \<and> vs @ q = (y # ys) @ b"
      show ?thesis
      proof (cases us)
        case Nil
        with d have "(x # xs) @ q = (y # ys) @ b" by simp
        then have "prefix (x # xs) (y # ys) \<or> prefix (y # ys) (x # xs)"
          by (metis append_eq_append_conv2 prefixI)
        with nx ny show ?thesis by blast
      next
        case (Cons u us')
        with d have xs: "xs = us' @ vs" by simp
        show ?thesis
        proof (cases vs)
          case Nil
          with d have "q = [] @ (y # ys) @ b" by simp
          then show ?thesis unfolding sublist_def by blast
        next
          case (Cons v vs')
          with d have "v = y" by simp
          with Cons xs y show ?thesis by simp
        qed
      qed
    next
      assume "(x # xs) @ vs = us \<and> q = vs @ (y # ys) @ b"
      then show ?thesis unfolding sublist_def by blast
    qed
  qed
qed

section \<open>Clip names\<close>

lemma digits_subset: "set ''0123456789'' \<subseteq> set ''0123456789-''"
  by (simp only: set_simps) blast

lemma nat_toString_numeric: "numeric (nat_toString n)"
  unfolding numeric_def
  using nat_toString_nonempty[of n] nat_toString_digits[of n] digits_subset
  by (blast intro: order_trans)

lemma minus_numeric: "numeric s \<Longrightarrow> numeric (CHR ''-'' # s)"
proof -
  have "CHR ''-'' \<in> set ''0123456789-''" by simp
  then show "numeric s \<Longrightarrow> numeric (CHR ''-'' # s)"
    unfolding numeric_def by (simp only: list.set(2)[of "CHR ''-''" s] list.distinct) blast
qed

lemma zeros_numeric: "numeric s \<Longrightarrow> numeric (replicate n (CHR ''0'') @ s)"
proof -
  have z: "CHR ''0'' \<in> set ''0123456789-''" by simp
  have "set (replicate n (CHR ''0'')) \<subseteq> {CHR ''0''}" by (induction n) simp_all
  with z have "set (replicate n (CHR ''0'')) \<subseteq> set ''0123456789-''" by blast
  then show "numeric s \<Longrightarrow> numeric (replicate n (CHR ''0'') @ s)"
    unfolding numeric_def by (simp only: set_append append_is_Nil_conv) blast
qed

lemma int_toString_numeric: "numeric (int_toString k)"
  by (cases "0 \<le> k") (simp_all only: int_toString_def if_True if_False
      minus_numeric nat_toString_numeric)

lemma padStart_numeric: "numeric (padStart n (CHR ''0'') (nat_toString k))"
  unfolding padStart_def by (rule zeros_numeric) (rule nat_toString_numeric)

lemma slot_text_numeric: "numeric (slot_text i a b h)"
  by (cases h) (simp_all only: slot_text.simps padStart_numeric nat_toString_numeric
      int_toString_numeric)

lemma numeric_plain: "numeric s \<Longrightarrow> CHR ''$'' \<notin> set s"
proof -
  have "CHR ''$'' \<notin> set ''0123456789-''" by simp
  then show "numeric s \<Longrightarrow> CHR ''$'' \<notin> set s" unfolding numeric_def by blast
qed

lemma numeric_disjoint:
  "numeric s \<Longrightarrow> set pat \<inter> set ''0123456789-'' = {} \<Longrightarrow> set s \<inter> set pat = {}"
  unfolding numeric_def by blast

lemma numeric_nonempty: "numeric s \<Longrightarrow> s \<noteq> []"
  unfolding numeric_def by blast

lemma token_chars:
  "set ''{part}'' \<inter> set ''0123456789-'' = {}"
  "set ''{index}'' \<inter> set ''0123456789-'' = {}"
  "set ''{start}'' \<inter> set ''0123456789-'' = {}"
  "set ''{end}'' \<inter> set ''0123456789-'' = {}"
  by simp_all

lemma slot_text_replace:
  assumes "pat \<noteq> []" and "set pat \<inter> set ''0123456789-'' = {}"
  shows "js_replace pat (slot_text i a b k) (inst (slot_text i a b) s) =
         inst (slot_text i a b) (fill pat k s)"
proof (rule js_replace_inst[OF assms(1)])
  show "\<forall>h. slot_text i a b h \<noteq> [] \<and> set (slot_text i a b h) \<inter> set pat = {}"
    using numeric_nonempty[OF slot_text_numeric] numeric_disjoint[OF slot_text_numeric assms(2)]
    by blast
  show "CHR ''$'' \<notin> set (slot_text i a b k)"
    by (rule numeric_plain[OF slot_text_numeric])
qed

lemma generateClipName_items:
  "generateClipName f templ i a b = inst (slot_text i a b) (name_items f templ) @ ''.mp4''"
proof -
  let ?\<rho> = "slot_text i a b"
  let ?t0 = "map Ch (js_replace ''{name}'' (baseName f) templ)"
  have 1: "js_replace ''{part}'' (padStart 3 (CHR ''0'') (nat_toString (i + 1))) (inst ?\<rho> s) =
           inst ?\<rho> (fill ''{part}'' PartSlot s)" for s
    using slot_text_replace[of "''{part}''" i a b PartSlot s] token_chars by simp
  have 2: "js_replace ''{index}'' (nat_toString (i + 1)) (inst ?\<rho> s) =
           inst ?\<rho> (fill ''{index}'' IndexSlot s)" for s
    using slot_text_replace[of "''{index}''" i a b IndexSlot s] token_chars by simp
  have 3: "js_replace ''{start}'' (int_toString \<lfloor>a\<rfloor>) (inst ?\<rho> s) =
           inst ?\<rho> (fill ''{start}'' StartSlot s)" for s
    using slot_text_replace[of "''{start}''" i a b StartSlot s] token_chars by simp
  have 4: "js_replace ''{end}'' (int_toString \<lfloor>b\<rfloor>) (inst ?\<rho> s) =
           inst ?\<rho> (fill ''{end}'' EndSlot s)" for s
    using slot_text_replace[of "''{end}''" i a b EndSlot s] token_chars by simp
  have "generateClipName f templ i a b =
          js_replace ''{end}'' (int_toString \<lfloor>b\<rfloor>)
            (js_replace ''{start}'' (int_toString \<lfloor>a\<rfloor>)
              (js_replace ''{index}'' (nat_toString (i + 1))
                (js_replace ''{part}'' (padStart 3 (CHR ''0'') (nat_toString (i + 1)))
                  (inst ?\<rho> ?t0)))) @ ''.mp4''"
    by (simp only: generateClipName_def inst_chars)
  also have "\<dots> = inst ?\<rho> (name_items f templ) @ ''.mp4''"
    by (simp only: 1 2 3 4 name_items_def)
  finally show ?thesis .
qed

lemma inst_length_le:
  "\<forall>h. length (\<rho> h) \<le> length (\<rho>' h) \<Longrightarrow> length (inst \<rho> s) \<le> length (inst \<rho>' s)"
proof (induction s)
  case Nil
  show ?case by simp
next
  case (Cons x xs)
  then show ?case by (cases x) (simp_all add: add_mono)
qed

lemma inst_length_eq:
  assumes le: "\<forall>h. length (\<rho> h) \<le> length (\<rho>' h)"
  shows "length (inst \<rho> s) = length (inst \<rho>' s) \<Longrightarrow>
         \<forall>h \<in> holes s. length (\<rho> h) = length (\<rho>' h)"
proof (induction s)
  case Nil
  show ?case by (simp add: holes_def)
next
  case (Cons x xs)
  show ?case
  proof (cases x)
    case (Ch c)
    with Cons show ?thesis by (simp add: holes_def)
  next
    case (Hole k)
    from le have a: "length (\<rho> k) \<le> length (\<rho>' k)" by simp
    from inst_length_le[OF le, of xs] have b: "length (inst \<rho> xs) \<le> length (inst \<rho>' xs)" .
    from Cons.prems Hole have "length (\<rho> k) + length (inst \<rho> xs) =
        length (\<rho>' k) + length (inst \<rho>' xs)" by simp
    with a b have "length (\<rho> k) = length (\<rho>' k)"
      and "length (inst \<rho> xs) = length (inst \<rho>' xs)" by linarith+
    with Cons.IH Hole show ?thesis by (auto simp: holes_def)
  qed
qed

lemma inst_inject:
  "\<forall>h \<in> holes s. length (\<rho> h) = length (\<rho>' h) \<Longrightarrow> inst \<rho> s = inst \<rho>' s \<Longrightarrow>
   \<forall>h \<in> holes s. \<rho> h = \<rho>' h"
proof (induction s)
  case Nil
  show ?case by (simp add: holes_def)
next
  case (Cons x xs)
  show ?case
  proof (cases x)
    case (Ch c)
    with Cons show ?thesis by (simp add: holes_def)
  next
    case (Hole k)
    with Cons.prems(1) have l: "length (\<rho> k) = length (\<rho>' k)" by (simp add: holes_def)
    with Cons.prems(2) Hole have "\<rho> k = \<rho>' k" and "inst \<rho> xs = inst \<rho>' xs" by simp_all
    with Cons.IH Cons.prems(1) Hole show ?thesis by (auto simp: holes_def)
  qed
qed

lemma holes_fill_mono: "holes s \<subseteq> holes (fill pat h s)"
  using fill_cases[of pat s h] by (auto simp: holes_def)

lemma holes_fill_hit: "sublist (map Ch pat) s \<Longrightarrow> h \<in> holes (fill pat h s)"
  using fill_cases[of pat s h] by (auto simp: holes_def sublist_def)

lemma sublist_around: "sublist ys p \<or> sublist ys q \<Longrightarrow> sublist ys (p @ r @ q)"
  by (metis sublist_appendI sublist_order.order_trans prefix_imp_sublist suffix_imp_sublist
      prefixI suffixI append.assoc)

lemma index_survives_part:
  assumes "sublist (map Ch ''{index}'') s"
  shows "sublist (map Ch ''{index}'') (fill ''{part}'' PartSlot s)"
proof -
  from fill_cases[of "''{part}''" s PartSlot] show ?thesis
  proof
    assume "\<not> sublist (map Ch ''{part}'') s \<and> fill ''{part}'' PartSlot s = s"
    with assms show ?thesis by simp
  next
    assume "\<exists>p q. s = p @ map Ch ''{part}'' @ q \<and>
              fill ''{part}'' PartSlot s = p @ [Hole PartSlot] @ q"
    then obtain p q where s: "s = p @ map Ch ''{part}'' @ q"
      and f: "fill ''{part}'' PartSlot s = p @ [Hole PartSlot] @ q"
      by blast
    from assms obtain a b where "s = a @ map Ch ''{index}'' @ b"
      unfolding sublist_def by blast
    with s have "p @ (Ch CHR ''{'' # map Ch ''part}'') @ q =
                 a @ (Ch CHR ''{'' # map Ch ''index}'') @ b"
      by simp
    then have "sublist (Ch CHR ''{'' # map Ch ''index}'') p \<or>
               sublist (Ch CHR ''{'' # map Ch ''index}'') q"
      by (rule sublist_survives) simp_all
    then have "sublist (map Ch ''{index}'') p \<or> sublist (map Ch ''{index}'') q" by simp
    then show ?thesis unfolding f by (rule sublist_around)
  qed
qed

lemma token_survives_name:
  assumes "sublist (CHR ''{'' # tok) templ"
    and "CHR ''{'' \<notin> set tok" and "CHR ''{'' \<notin> set ''name}''"
    and "\<not> prefix ''{name}'' (CHR ''{'' # tok)" and "\<not> prefix (CHR ''{'' # tok) ''{name}''"
  shows "sublist (CHR ''{'' # tok) (js_replace ''{name}'' rep templ)"
proof -
  from js_replace_cases[of "''{name}''" rep templ] show ?thesis
  proof
    assume "js_replace ''{name}'' rep templ = templ"
    with assms(1) show ?thesis by simp
  next
    assume "\<exists>p q r. templ = p @ ''{name}'' @ q \<and> js_replace ''{name}'' rep templ = p @ r @ q"
    then obtain p q r where s: "templ = p @ ''{name}'' @ q"
      and f: "js_replace ''{name}'' rep templ = p @ r @ q"
      by blast
    from assms(1) obtain a b where "templ = a @ (CHR ''{'' # tok) @ b"
      unfolding sublist_def by blast
    with s have "p @ (CHR ''{'' # ''name}'') @ q = a @ (CHR ''{'' # tok) @ b" by simp
    then have "sublist (CHR ''{'' # tok) p \<or> sublist (CHR ''{'' # tok) q"
      using assms(2-5)
      by (intro sublist_survives[where x = "CHR ''{''" and xs = "''name}''" and p = p and q = q
            and a = a and b = b]) simp_all
    then show ?thesis unfolding f by (rule sublist_around)
  qed
qed

lemma sublist_map_Ch: "sublist xs ys \<Longrightarrow> sublist (map Ch xs) (map Ch ys)"
  unfolding sublist_def by (metis map_append)

lemma name_items_holes:
  assumes "sublist ''{index}'' templ \<or> sublist ''{part}'' templ"
  shows "IndexSlot \<in> holes (name_items f templ) \<or> PartSlot \<in> holes (name_items f templ)"
proof -
  let ?t0 = "map Ch (js_replace ''{name}'' (baseName f) templ)"
  let ?t1 = "fill ''{part}'' PartSlot ?t0"
  let ?t2 = "fill ''{index}'' IndexSlot ?t1"
  have up: "holes ?t2 \<subseteq> holes (name_items f templ)"
    unfolding name_items_def
    using holes_fill_mono[of ?t2 "''{start}''" StartSlot]
      holes_fill_mono[of "fill ''{start}'' StartSlot ?t2" "''{end}''" EndSlot]
    by blast
  from assms show ?thesis
  proof
    assume "sublist ''{index}'' templ"
    then have "sublist ''{index}'' (js_replace ''{name}'' (baseName f) templ)"
      using token_survives_name[of "''index}''" templ "baseName f"] by simp
    then have "sublist (map Ch ''{index}'') ?t0" by (rule sublist_map_Ch)
    then have "sublist (map Ch ''{index}'') ?t1" by (rule index_survives_part)
    then have "IndexSlot \<in> holes ?t2" by (rule holes_fill_hit)
    with up show ?thesis by blast
  next
    assume "sublist ''{part}'' templ"
    then have "sublist ''{part}'' (js_replace ''{name}'' (baseName f) templ)"
      using token_survives_name[of "''part}''" templ "baseName f"] by simp
    then have "sublist (map Ch ''{part}'') ?t0" by (rule sublist_map_Ch)
    then have "PartSlot \<in> holes ?t1" by (rule holes_fill_hit)
    with holes_fill_mono[of ?t1 "''{index}''" IndexSlot] up show ?thesis by blast
  qed
qed

lemma slot_text_length_mono:
  assumes "i \<le> j" "0 \<le> a" "a \<le> a'" "0 \<le> b" "b \<le> b'"
  shows "length (slot_text i a b h) \<le> length (slot_text j a' b' h)"
proof (cases h)
  case PartSlot
  from assms(1) have "length (nat_toString (i + 1)) \<le> length (nat_toString (j + 1))"
    by (intro length_nat_toString_mono) simp
  with PartSlot show ?thesis by (simp add: padStart_def)
next
  case IndexSlot
  with assms(1) show ?thesis by (simp add: length_nat_toString_mono)
next
  case StartSlot
  from assms have "0 \<le> \<lfloor>a\<rfloor>" "\<lfloor>a\<rfloor> \<le> \<lfloor>a'\<rfloor>" by (simp_all add: floor_mono)
  then have "nat \<lfloor>a\<rfloor> \<le> nat \<lfloor>a'\<rfloor>" "0 \<le> \<lfloor>a\<rfloor>" "0 \<le> \<lfloor>a'\<rfloor>" by linarith+
  with StartSlot show ?thesis by (simp add: int_toString_def length_nat_toString_mono)
next
  case EndSlot
  from assms have "0 \<le> \<lfloor>b\<rfloor>" "\<lfloor>b\<rfloor> \<le> \<lfloor>b'\<rfloor>" by (simp_all add: floor_mono)
  then have "nat \<lfloor>b\<rfloor> \<le> nat \<lfloor>b'\<rfloor>" "0 \<le> \<lfloor>b\<rfloor>" "0 \<le> \<lfloor>b'\<rfloor>" by linarith+
  with EndSlot show ?thesis by (simp add: int_toString_def length_nat_toString_mono)
qed

lemma generateClipName_distinct:
  assumes "sublist ''{index}'' templ \<or> sublist ''{part}'' templ"
    and "i < j" and "0 \<le> a" and "a \<le> a'" and "0 \<le> b" and "b \<le> b'"
  shows "generateClipName f templ i a b \<noteq> generateClipName f templ j a' b'"
proof
  assume eq: "generateClipName f templ i a b = generateClipName f templ j a' b'"
  let ?s = "name_items f templ"
  from eq have e: "inst (slot_text i a b) ?s = inst (slot_text j a' b') ?s"
    by (simp add: generateClipName_items)
  have le: "\<forall>h. length (slot_text i a b h) \<le> length (slot_text j a' b' h)"
    using assms by (simp add: slot_text_length_mono)
  from e have "length (inst (slot_text i a b) ?s) = length (inst (slot_text j a' b') ?s)"
    by simp
  from inst_length_eq[OF le this]
  have "\<forall>h \<in> holes ?s. length (slot_text i a b h) = length (slot_text j a' b' h)" .
  from inst_inject[OF this e]
  have same: "\<forall>h \<in> holes ?s. slot_text i a b h = slot_text j a' b' h" .
  from name_items_holes[OF assms(1), of f] have "i + 1 = j + 1"
  proof
    assume "IndexSlot \<in> holes ?s"
    with same have "nat_toString (i + 1) = nat_toString (j + 1)" by force
    then show ?thesis by (rule nat_toString_inject)
  next
    assume "PartSlot \<in> holes ?s"
    with same have "padStart 3 (CHR ''0'') (nat_toString (i + 1)) =
                    padStart 3 (CHR ''0'') (nat_toString (j + 1))" by force
    then show ?thesis by (rule padStart_inject)
  qed
  with \<open>i < j\<close> show False by simp
qed

lemma marker_loop_ascending:
  "sorted (l # xs) \<Longrightarrow>
   sorted (map iv_start (marker_loop plus_eps l xs [])) \<and> sorted (map iv_end (marker_loop plus_eps l xs [])) \<and>
   (\<forall>iv \<in> set (marker_loop plus_eps l xs []). l \<le> iv_start iv \<and> l \<le> iv_end iv)"
proof (induction xs arbitrary: l)
  case Nil
  show ?case by simp
next
  case (Cons m ms)
  from Cons.prems have lm: "l \<le> m" and s: "sorted (m # ms)" by simp_all
  from Cons.IH[OF s] lm show ?case
    by (auto simp add: marker_loop_Cons simp del: marker_loop.simps(2) intro: order_trans)
qed

lemma fixed_run_ascending:
  assumes c: "0 < clipDuration ts"
  shows "fixed_run d ts cur ivs \<Longrightarrow>
   sorted (map iv_start ivs) \<and> sorted (map iv_end ivs)"
proof (induction rule: fixed_run.induct)
  case (run_step cur ivs)
  from fixed_run_bounds[OF c run_step.hyps(3)]
  have b: "\<forall>iv \<in> set ivs. next_end d ts cur \<le> iv_start iv \<and> iv_start iv < iv_end iv" by blast
  from next_end_bounds[OF c run_step.hyps(1)] have "cur < next_end d ts cur" by simp
  with b run_step.IH show ?case by fastforce
qed simp_all

lemma planIntervals_ascending:
  assumes p: "planIntervals plus_eps markers duration ts = Some ivs"
    and m: "\<forall>m \<in> set markers. 0 \<le> m \<and> m \<le> duration"
    and c: "markers = [] \<longrightarrow> 0 < clipDuration ts"
  shows "sorted (map iv_start ivs) \<and> sorted (map iv_end ivs) \<and>
         (\<forall>iv \<in> set ivs. 0 \<le> iv_start iv \<and> 0 \<le> iv_end iv)"
proof (cases "markers = []")
  case True
  with c planIntervals_fixed[of ts plus_eps duration] p have run: "fixed_run duration ts 0 ivs"
    by auto
  from True c have c': "0 < clipDuration ts" by simp
  from fixed_run_ascending[OF c' run] fixed_run_bounds[OF c' run] show ?thesis
    by (auto intro: order_trans less_imp_le)
next
  case False
  then obtain x where "x \<in> set markers" by (cases markers) auto
  with m have "0 \<le> duration" by (auto intro: order_trans)
  with m have "\<forall>x \<in> set (sort (markers @ [duration])). 0 \<le> x" by auto
  then have "sorted (0 # sort (markers @ [duration]))" by simp
  from marker_loop_ascending[OF this] False p show ?thesis
    by (auto simp: planIntervals_def intro: order_trans)
qed

section \<open>Claim about clip names\<close>

text \<open>
  C7, as amended. When the naming template holds the token \<open>{index}\<close> or the token
  \<open>{part}\<close>, the names generated for two different intervals of a job differ: in marker
  mode with the markers in [0, duration], and in fixed-interval mode with a positive clip
  duration; the file name and the rest of the template are arbitrary. Without such a
  token the names can coincide.
\<close>

theorem C7_names_distinct:
  assumes "sublist ''{index}'' (template ts) \<or> sublist ''{part}'' (template ts)"
    and "planIntervals plus_eps markers duration ts = Some ivs"
    and "\<forall>m \<in> set markers. 0 \<le> m \<and> m \<le> duration"
    and "markers = [] \<longrightarrow> 0 < clipDuration ts"
    and "i < j" and "j < length ivs"
  shows "generateClipName f (template ts) i (iv_start (ivs ! i)) (iv_end (ivs ! i)) \<noteq>
         generateClipName f (template ts) j (iv_start (ivs ! j)) (iv_end (ivs ! j))"
proof -
  from planIntervals_ascending[OF assms(2,3,4)]
  have s: "sorted (map iv_start ivs)" and e: "sorted (map iv_end ivs)"
    and n: "\<forall>iv \<in> set ivs. 0 \<le> iv_start iv \<and> 0 \<le> iv_end iv"
    by blast+
  from assms(5,6) have i: "i < length ivs" and ij: "i \<le> j" by simp_all
  from sorted_nth_mono[OF s ij] assms(6) i have 1: "iv_start (ivs ! i) \<le> iv_start (ivs ! j)"
    by simp
  from sorted_nth_mono[OF e ij] assms(6) i have 2: "iv_end (ivs ! i) \<le> iv_end (ivs ! j)"
    by simp
  from n i have 3: "0 \<le> iv_start (ivs ! i)" and 4: "0 \<le> iv_end (ivs ! i)" by simp_all
  from assms(1) assms(5) 3 1 4 2 show ?thesis by (rule generateClipName_distinct)
qed

theorem C7_names_distinct_witness:
  "sublist ''{index}'' (template DEFAULT_TRIM_SETTINGS) \<and>
   planIntervals eps_sum [] 65 DEFAULT_TRIM_SETTINGS =
     Some [\<lparr>iv_start = 0, iv_end = 30\<rparr>, \<lparr>iv_start = 30, iv_end = 60\<rparr>, \<lparr>iv_start = 60, iv_end = 65\<rparr>] \<and>
   0 < clipDuration DEFAULT_TRIM_SETTINGS \<and> (0::nat) < 1 \<and>
   generateClipName ''movie.mp4'' (template DEFAULT_TRIM_SETTINGS) 0 0 30 \<noteq>
   generateClipName ''movie.mp4'' (template DEFAULT_TRIM_SETTINGS) 1 30 60"
proof -
  let ?ivs = "[\<lparr>iv_start = 0, iv_end = 30\<rparr>, \<lparr>iv_start = 30, iv_end = 60\<rparr>, \<lparr>iv_start = 60, iv_end = 65\<rparr>]"
  have s: "sublist ''{index}'' (template DEFAULT_TRIM_SETTINGS)"
    unfolding sublist_def DEFAULT_TRIM_SETTINGS_def
    by (rule exI[of _ "''{name}_part''"], rule exI[of _ "''_{start}-{end}''"]) simp
  then have t: "sublist ''{index}'' (template DEFAULT_TRIM_SETTINGS) \<or>
             sublist ''{part}'' (template DEFAULT_TRIM_SETTINGS)" ..
  have p: "planIntervals eps_sum [] 65 DEFAULT_TRIM_SETTINGS = Some ?ivs"
    by (simp add: planIntervals_def fixed_loop.simps DEFAULT_TRIM_SETTINGS_def)
  have m: "\<forall>m \<in> set ([] :: real list). 0 \<le> m \<and> m \<le> 65" by simp
  have c: "0 < clipDuration DEFAULT_TRIM_SETTINGS" by (simp add: DEFAULT_TRIM_SETTINGS_def)
  then have c': "([] :: real list) = [] \<longrightarrow> 0 < clipDuration DEFAULT_TRIM_SETTINGS" by simp
  have "(0::nat) < 1" "1 < length ?ivs" by simp_all
  from C7_names_distinct[OF t p m c' this, of "''movie.mp4''"] s p c show ?thesis by simp
qed

theorem C7_counterexample:
  "generateClipName ''movie.mp4'' ''clip'' 0 0 30 = ''clip.mp4'' \<and>
   generateClipName ''movie.mp4'' ''clip'' 1 30 60 = ''clip.mp4''"
  by (simp add: eval_strings)

end
